theory Spec2Isabelle
  imports Complex_Main "HOL-Library.FSet" "HOL-Library.Word"
begin

unbundle bit_operations_syntax

section \<open>Common conventions\<close>

text \<open>
  Objects that the C++ code reaches through pointers (hits, node descriptors, patterns,
  roads) are identified by their address, a natural number. \<open>Double_t\<close> and \<open>float\<close>
  quantities are modelled as reals: comparisons are exact, rounding of products and sums
  is outside the model. An \<open>assert\<close> that fails is the error \<open>AssertionFailed\<close>, an access
  outside an array or a \<open>std::vector\<close> is the error \<open>OutOfRange\<close>, and a call through a
  null pointer is the error \<open>NullPointer\<close>.
\<close>

datatype error = AssertionFailed | OutOfRange | NullPointer

section \<open>MWDC.h: reference times\<close>

text \<open>
  \<open>fRefMap->GetSize()\<close> is an \<open>Int_t\<close>, held here as its 32-bit representation (\<open>sint\<close> reads
  its value); the cast to \<open>UInt_t\<close> keeps the bits, and the comparison with the \<open>UInt_t\<close>
  index is unsigned. \<open>kBig\<close> is a constant of the analysis framework and is a parameter
  here.
\<close>

record MWDC =
  fRefMapSize :: "32 word"
  fRefTime :: "real list"

definition vector_at :: "'a list \<Rightarrow> nat \<Rightarrow> error + 'a" where
  "vector_at v i = (if i < length v then Inr (v ! i) else Inl OutOfRange)"

definition GetRefTime :: "real \<Rightarrow> MWDC \<Rightarrow> 32 word \<Rightarrow> error + real" where
  "GetRefTime kBig m i =
     (if i < fRefMapSize m then vector_at (fRefTime m) (unat i)
      else Inr kBig)"

section \<open>Patterns, links and node descriptors\<close>

text \<open>
  A \<open>Pattern\<close> has its bits, \<open>UShort_t\<close> values held as naturals below 65536, and the
  linked list of \<open>Link\<close>s that starts at \<open>fChild\<close>, written as a list from the head. A
  \<open>Link\<close> holds the address of the child pattern and the type; its \<open>next\<close> pointer is the
  rest of the list.
\<close>

record Link =
  lnPattern :: nat
  lnType :: nat

record Pattern =
  fBits :: "nat list"
  fChild :: "Link list"

text \<open>
  A \<open>NodeDescriptor\<close> carries the link, the depth and the shift (\<open>ndDepth\<close>, \<open>ndShift\<close>),
  the mirror flag, the hits and the \<open>used\<close> mark. The number of bits of its pattern,
  \<open>nd.link->GetPattern()->GetNbits()\<close>, and the bin numbers \<open>nd[i]\<close> (the indexing operator
  is declared in TreeWalk.h) are kept as two more fields.
\<close>

record NodeDescriptor =
  link :: Link
  ndDepth :: nat
  ndShift :: nat
  mirrored :: bool
  hits :: "nat fset"
  used :: nat
  ndNbits :: nat
  ndBin :: "nat \<Rightarrow> nat"

section \<open>Road.cxx: building a road\<close>

text \<open>
  A \<open>set<Hit*>\<close> is a finite set of hit addresses. The plane number of a hit,
  \<open>hit->GetWirePlane()->GetPlaneNum()\<close>, does not change while a road is built and is the
  parameter \<open>planeNum\<close>.
\<close>

record Projection =
  fPlanes :: "nat list"
  fLayers :: "nat list"
  pHitpattern :: nat

definition GetNlayers :: "Projection \<Rightarrow> nat" where
  "GetNlayers proj = length (fLayers proj)"

definition GetNplanes :: "Projection \<Rightarrow> nat" where
  "GetNplanes proj = length (fPlanes proj)"

definition GetHitpattern :: "Projection \<Rightarrow> nat" where
  "GetHitpattern proj = pHitpattern proj"

record BuildInfo_t =
  fPatterns :: "nat list"
  fCommonHits :: "nat fset"
  fHitpattern :: nat
  fNlayers :: nat
  bNplanes :: nat

record Road =
  fLeft :: "nat list"
  fRight :: "nat list"
  fSlope :: real
  fPos :: real
  fChi2 :: real
  fErr :: "real list"
  fHits :: "nat fset"
  fBuild :: "BuildInfo_t option"

definition kMaxUShort :: nat where
  "kMaxUShort = 65535"

text \<open>The constructor \<open>Road(const Projection*)\<close>; address 0 is the null pointer.\<close>

definition Road_ctor :: "real \<Rightarrow> Projection \<Rightarrow> error + Road" where
  "Road_ctor kBig proj =
     (let b = \<lparr> fPatterns = [], fCommonHits = {||}, fHitpattern = GetHitpattern proj,
                fNlayers = GetNlayers proj, bNplanes = GetNplanes proj \<rparr>
      in if fHitpattern b \<noteq> 0 \<and> fNlayers b \<noteq> 0 \<and> bNplanes b \<ge> fNlayers b
         then Inr \<lparr> fLeft = [kMaxUShort, kMaxUShort], fRight = [0, 0], fSlope = kBig,
                    fPos = kBig, fChi2 = kBig, fErr = [kBig, kBig], fHits = {||},
                    fBuild = Some b \<rparr>
         else Inl AssertionFailed)"

text \<open>The copy constructor \<open>Road(const Road&)\<close>: \<open>fPos\<close> is initialised from \<open>orig.fSlope\<close>.\<close>

definition Road_copy :: "Road \<Rightarrow> Road" where
  "Road_copy orig =
     \<lparr> fLeft = [fLeft orig ! 0, fLeft orig ! 1], fRight = [fRight orig ! 0, fRight orig ! 1],
       fSlope = fSlope orig, fPos = fSlope orig, fChi2 = fChi2 orig,
       fErr = [fErr orig ! 0, fErr orig ! 1], fHits = {||},
       fBuild = (case fBuild orig of Some b \<Rightarrow> Some b | None \<Rightarrow> None) \<rparr>"

text \<open>
  \<open>Road::operator=\<close> on a store of roads: \<open>this\<close> and \<open>rhs\<close> are addresses, and nothing is
  done when they are the same object.
\<close>

definition Road_assign :: "(nat \<Rightarrow> Road) \<Rightarrow> nat \<Rightarrow> nat \<Rightarrow> (nat \<Rightarrow> Road)" where
  "Road_assign st this rhs =
     (if this \<noteq> rhs then
        st(this := (st this)
          \<lparr> fLeft := (fLeft (st this))[0 := fLeft (st rhs) ! 0, 1 := fLeft (st rhs) ! 1],
            fRight := (fRight (st this))[0 := fRight (st rhs) ! 0, 1 := fRight (st rhs) ! 1],
            fSlope := fSlope (st rhs),
            fPos := fPos (st rhs),
            fChi2 := fChi2 (st rhs),
            fErr := (fErr (st this))[0 := fErr (st rhs) ! 0, 1 := fErr (st rhs) ! 1],
            fBuild := (case fBuild (st rhs) of Some b \<Rightarrow> Some b | None \<Rightarrow> None) \<rparr>)
      else st)"

text \<open>
  \<open>Road::CheckMatch\<close>. \<open>curpat\<close> is the \<open>TBits\<close> with the plane number of every hit set;
  the loop over the planes returns false as soon as a second plane is missing.
\<close>

definition kMaxmiss :: nat where
  "kMaxmiss = 1"

fun miss_loop :: "nat fset \<Rightarrow> nat list \<Rightarrow> nat \<Rightarrow> bool" where
  "miss_loop curpat [] nmiss = True"
| "miss_loop curpat (i # rest) nmiss =
     (if i |\<notin>| curpat
      then (if nmiss + 1 > kMaxmiss then False else miss_loop curpat rest (nmiss + 1))
      else miss_loop curpat rest nmiss)"

definition CheckMatch :: "(nat \<Rightarrow> nat) \<Rightarrow> BuildInfo_t \<Rightarrow> nat fset \<Rightarrow> bool" where
  "CheckMatch planeNum b hs = miss_loop (planeNum |`| hs) [0 ..< bNplanes b] 0"

text \<open>
  \<open>Road::Add\<close>. The descriptor is passed by reference: \<open>a\<close> is its address in the store
  \<open>nds\<close>. The result is the returned flag and the road afterwards.
\<close>

definition Add_finish :: "NodeDescriptor \<Rightarrow> nat \<Rightarrow> Road \<Rightarrow> BuildInfo_t \<Rightarrow> error + (bool \<times> Road)" where
  "Add_finish nd a r b =
     (let b1 = b \<lparr> fPatterns := fPatterns b @ [a] \<rparr>
      in if ndNbits nd \<noteq> fNlayers b1 then Inl AssertionFailed
         else
           let n = fNlayers b1 - 1;
               l0 = min (ndBin nd 0) (fLeft r ! 0);
               l1 = min (ndBin nd n) (fLeft r ! 1);
               r0 = max (ndBin nd 0) (fRight r ! 0);
               r1 = max (ndBin nd n) (fRight r ! 1)
           in Inr (True, r \<lparr> fLeft := (fLeft r)[0 := l0, 1 := l1],
                              fRight := (fRight r)[0 := r0, 1 := r1],
                              fBuild := Some b1 \<rparr>))"

definition Add :: "(nat \<Rightarrow> nat) \<Rightarrow> (nat \<Rightarrow> NodeDescriptor) \<Rightarrow> Road \<Rightarrow> nat \<Rightarrow> error + (bool \<times> Road)" where
  "Add planeNum nds r a =
     (case fBuild r of
        None \<Rightarrow> Inr (False, r)
      | Some b \<Rightarrow>
          let nd = nds a in
          if fPatterns b = [] then
            (if \<not> CheckMatch planeNum b (hits nd) then Inr (False, r)
             else Add_finish nd a (r \<lparr> fHits := hits nd \<rparr>) (b \<lparr> fCommonHits := hits nd \<rparr>))
          else
            let new_commons = hits nd |\<inter>| fCommonHits b in
            if \<not> fcard new_commons \<le> fcard (fCommonHits b) then Inl AssertionFailed
            else if fcard new_commons < fcard (fCommonHits b) \<and> \<not> CheckMatch planeNum b new_commons
            then Inr (False, r)
            else
              let b1 = (if fcard new_commons < fcard (fCommonHits b)
                        then b \<lparr> fCommonHits := new_commons \<rparr> else b);
                  new_hits = fHits r |\<union>| hits nd;
                  r1 = (if fcard new_hits \<noteq> fcard (fHits r) then r \<lparr> fHits := new_hits \<rparr> else r)
              in Add_finish nd a r1 b1)"

text \<open>A sequence of \<open>Add\<close> calls on one road; a rejected descriptor leaves the road as it is.\<close>

fun AddAll :: "(nat \<Rightarrow> nat) \<Rightarrow> (nat \<Rightarrow> NodeDescriptor) \<Rightarrow> Road \<Rightarrow> nat list \<Rightarrow> error + Road" where
  "AddAll planeNum nds r [] = Inr r"
| "AddAll planeNum nds r (a # rest) =
     (case Add planeNum nds r a of
        Inl e \<Rightarrow> Inl e
      | Inr (ok, r1) \<Rightarrow> AddAll planeNum nds r1 rest)"

text \<open>
  \<open>Road::Finish\<close>. The loop writes the \<open>used\<close> field of every descriptor of the road through
  its pointer, so it works on the store of descriptors.
\<close>

fun Finish_loop :: "(nat \<Rightarrow> NodeDescriptor) \<Rightarrow> nat fset \<Rightarrow> nat list \<Rightarrow> error + (nat \<Rightarrow> NodeDescriptor)" where
  "Finish_loop nds common [] = Inr nds"
| "Finish_loop nds common (a # rest) =
     (let nd = nds a in
      if \<not> used nd < 2 then Inl AssertionFailed
      else
        let not_in_common = hits nd |-| common
        in Finish_loop (nds(a := nd \<lparr> used := (if not_in_common = {||} then 2 else 1) \<rparr>)) common rest)"

definition Finish :: "(nat \<Rightarrow> NodeDescriptor) \<Rightarrow> Road \<Rightarrow> error + ((nat \<Rightarrow> NodeDescriptor) \<times> Road)" where
  "Finish nds r =
     (case fBuild r of
        None \<Rightarrow> Inl AssertionFailed
      | Some b \<Rightarrow>
          (case Finish_loop nds (fCommonHits b) (fPatterns b) of
             Inl e \<Rightarrow> Inl e
           | Inr nds1 \<Rightarrow> Inr (nds1, r \<lparr> fBuild := None \<rparr>)))"

text \<open>
  The state of a road that is being built is consistent when it has no pattern yet, or
  its common hits are the hits shared by all its patterns, pass \<open>CheckMatch\<close> and lie in
  \<open>fHits\<close>.
\<close>

definition road_ok :: "(nat \<Rightarrow> nat) \<Rightarrow> (nat \<Rightarrow> NodeDescriptor) \<Rightarrow> Road \<Rightarrow> bool" where
  "road_ok planeNum nds r =
     (case fBuild r of None \<Rightarrow> True
      | Some b \<Rightarrow> fPatterns b = [] \<or>
          ((\<forall>h. h |\<in>| fCommonHits b \<longleftrightarrow> (\<forall>x \<in> set (fPatterns b). h |\<in>| hits (nds x))) \<and>
           CheckMatch planeNum b (fCommonHits b) \<and> fCommonHits b |\<subseteq>| fHits r))"

section \<open>PatternGenerator.cxx: patterns, links and the hash table\<close>

text \<open>
  The patterns allocated with \<open>new\<close> form a pool, and the address of a pattern is its
  index there. A \<open>HashNode*\<close> is identified by the address of the pattern its node holds:
  every node is created for one new pattern. A bucket of the hash table is the chain of
  its nodes from the head. \<open>fMinDepth\<close> is a \<open>UInt_t\<close> that starts at \<open>-1\<close>, its largest
  value; the depths that the functions pass around are \<open>UInt_t\<close> values that stay small
  and are naturals. The data members that \<open>Generate\<close> sets before the build are the record
  \<open>Settings\<close>; the hash table and the patterns are the record \<open>Build\<close>.
\<close>

record HashNode =
  fPattern :: nat
  fMinDepth :: "32 word"

record Settings =
  fNlevels :: nat
  fNplanes :: nat
  fMaxSlope :: real
  fZ :: "real list"

record Build =
  fHashTable :: "HashNode list list"
  pool :: "Pattern list"

text \<open>
  Modelled from the spec: the class \<open>Pattern\<close> is declared in Pattern.h, which is not among
  the sources. A new pattern of \<open>n\<close> bits is all-zero and has no children; two patterns
  are equal when their bit tuples are equal; \<open>AddChild\<close> makes a \<open>Link\<close> from the child,
  the current head of the list and the type, and makes it the new head.
\<close>

definition Pattern_new :: "nat \<Rightarrow> Pattern" where
  "Pattern_new n = \<lparr> fBits = replicate n 0, fChild = [] \<rparr>"

definition AddChild :: "Build \<Rightarrow> nat \<Rightarrow> nat \<Rightarrow> nat \<Rightarrow> Build" where
  "AddChild b parent child t =
     b \<lparr> pool := (pool b)[parent := (pool b ! parent)
            \<lparr> fChild := \<lparr> lnPattern = child, lnType = t \<rparr> # fChild (pool b ! parent) \<rparr>] \<rparr>"

text \<open>
  Modelled from the spec: \<open>Pattern::GetWidth\<close> is declared in Pattern.h, which is not among
  the sources. The specification gives the width of a stored pattern as
  \<open>max(bits) - min(bits)\<close> and lets \<open>ChildIter\<close> mirror a candidate whose width is
  negative; the source keeps the width in a signed \<open>Int_t\<close> and tests \<open>width < 0\<close>. The
  signed width is the bin of the last plane minus the bin of the first plane; it is
  \<open>max(bits) - min(bits)\<close> for every pattern whose first bin is its smallest and whose last
  bin is its largest. (For a pattern without bits the C++ would read outside the array.)
\<close>

definition GetWidth :: "nat list \<Rightarrow> int" where
  "GetWidth bits = int (last bits) - int (hd bits)"

subsection \<open>ChildIter\<close>

record ChildIter =
  fParent :: "nat list"
  itChild :: "nat list"
  fCount :: int
  fType :: nat

text \<open>
  One trial of the loop in \<open>ChildIter::operator++\<close> with \<open>fCount\<close> already decremented to
  \<open>c\<close>. The bits are computed as \<open>Int_t\<close> values and stored into the \<open>UShort_t\<close> array of
  the child, which keeps them modulo 65536; \<open>minbit\<close> and \<open>maxbit\<close> start at 1 and 0.
\<close>

definition trial_bits :: "nat list \<Rightarrow> nat \<Rightarrow> int list" where
  "trial_bits parent c =
     map (\<lambda>ibit. 2 * int (parent ! ibit) + (if c AND 2 ^ ibit \<noteq> 0 then 1 else 0))
       [0 ..< length parent]"

definition to_UShort :: "int \<Rightarrow> nat" where
  "to_UShort v = nat (v mod 65536)"

definition trial_minbit :: "int list \<Rightarrow> int" where
  "trial_minbit bits = fold (\<lambda>bit minbit. if bit < minbit then bit else minbit) (rev bits) 1"

definition trial_maxbit :: "int list \<Rightarrow> int" where
  "trial_maxbit bits = fold (\<lambda>bit maxbit. if bit > maxbit then bit else maxbit) (rev bits) 0"

fun ChildIter_search :: "ChildIter \<Rightarrow> nat \<Rightarrow> ChildIter" where
  "ChildIter_search it 0 = it \<lparr> fCount := - 1 \<rparr>"
| "ChildIter_search it (Suc c) =
     (let bits = trial_bits (fParent it) c;
          maxbit = trial_maxbit bits;
          minbit = trial_minbit bits;
          child = map to_UShort bits;
          width = GetWidth child
      in if maxbit - minbit > \<bar>width\<bar>
         then ChildIter_search (it \<lparr> itChild := child, fCount := int c \<rparr>) c
         else
           let t1 = (if minbit = 0 then 0 else 1);
               child1 = (if minbit = 0 then child
                         else map (\<lambda>b. to_UShort (int b - 1)) child);
               t2 = (if width < 0 then t1 + 2 else t1);
               child2 = (if width < 0 then map (\<lambda>b. to_UShort (- width - int b)) child1
                         else child1)
           in it \<lparr> itChild := child2, fCount := int c, fType := t2 \<rparr>)"

definition ChildIter_incr :: "ChildIter \<Rightarrow> ChildIter" where
  "ChildIter_incr it =
     (if fCount it > 0 then ChildIter_search it (nat (fCount it)) else it \<lparr> fCount := - 1 \<rparr>)"

definition ChildIter_ctor :: "nat list \<Rightarrow> ChildIter" where
  "ChildIter_ctor parent =
     ChildIter_incr \<lparr> fParent = parent, itChild = parent, fCount = 2 ^ length parent, fType = 0 \<rparr>"

definition ChildIter_valid :: "ChildIter \<Rightarrow> bool" where
  "ChildIter_valid it = (fCount it \<ge> 0)"

subsection \<open>TestSlope and LineCheck\<close>

text \<open>\<open>TestSlope\<close> converts the width to \<open>UInt_t\<close> before it looks at it.\<close>

definition TestSlope :: "Settings \<Rightarrow> nat list \<Rightarrow> nat \<Rightarrow> bool" where
  "TestSlope s pat depth =
     (let width = nat (GetWidth pat mod 2 ^ 32)
      in width < 2 \<or> \<bar>real (width - 1) / real (2 ^ depth :: nat)\<bar> \<le> fMaxSlope s)"

fun LineCheck_loop :: "real list \<Rightarrow> nat list \<Rightarrow> nat \<Rightarrow> real \<Rightarrow> real \<Rightarrow> real \<Rightarrow> real \<Rightarrow> bool" where
  "LineCheck_loop z pat 0 xL xRm1 zL zR = True"
| "LineCheck_loop z pat (Suc j) xL xRm1 zL zR =
     (let i = Suc j;
          dL = xL * z ! i - real (pat ! i) * zL
      in if \<bar>dL\<bar> \<ge> zL then False
         else
           let dR = xRm1 * z ! i - real (pat ! i) * zR
           in if \<bar>dR\<bar> \<ge> zR then False
              else if i > 1 then
                LineCheck_loop z pat j
                  (if dR < 0 then real (pat ! i) else xL)
                  (if dL > 0 then real (pat ! i) else xRm1)
                  (if dR < 0 then z ! i else zL)
                  (if dL > 0 then z ! i else zR)
              else LineCheck_loop z pat j xL xRm1 zL zR)"

definition LineCheck :: "Settings \<Rightarrow> nat list \<Rightarrow> error + bool" where
  "LineCheck s pat =
     (if fNplanes s = 0 then Inl AssertionFailed
      else
        let xL = real (pat ! (fNplanes s - 1));
            zL = fZ s ! (fNplanes s - 1)
        in Inr (LineCheck_loop (fZ s) pat (fNplanes s - 2) xL xL zL zL))"

subsection \<open>The hash table\<close>

text \<open>
  \<open>Pattern::Hash\<close> is declared in Pattern.h and is the parameter \<open>Hash\<close>, a function of the
  bits of the pattern.
\<close>

definition kNoDepth :: "32 word" where
  "kNoDepth = - 1"

definition AddHash :: "(nat list \<Rightarrow> nat) \<Rightarrow> Settings \<Rightarrow> Build \<Rightarrow> nat \<Rightarrow> Build" where
  "AddHash Hash s b pat =
     (let tbl = (if length (fHashTable b) = 0 then replicate (2 ^ (fNlevels s - 1)) []
                 else fHashTable b);
          hashsize = length tbl;
          hash = Hash (fBits (pool b ! pat)) mod hashsize
      in b \<lparr> fHashTable := tbl[hash := \<lparr> fPattern = pat, fMinDepth = kNoDepth \<rparr> # tbl ! hash] \<rparr>)"

fun Find_chain :: "Pattern list \<Rightarrow> nat list \<Rightarrow> HashNode list \<Rightarrow> HashNode option" where
  "Find_chain pl pat [] = None"
| "Find_chain pl pat (hashNode # rest) =
     (if pat = fBits (pl ! fPattern hashNode) then Some hashNode else Find_chain pl pat rest)"

definition Find :: "(nat list \<Rightarrow> nat) \<Rightarrow> Build \<Rightarrow> nat list \<Rightarrow> error + HashNode option" where
  "Find Hash b pat =
     (let hashsize = length (fHashTable b)
      in if hashsize = 0 then Inl AssertionFailed
         else Inr (Find_chain (pool b) pat (fHashTable b ! (Hash pat mod hashsize))))"

definition UsedAtDepth :: "Build \<Rightarrow> nat \<Rightarrow> nat \<Rightarrow> Build" where
  "UsedAtDepth b pnode depth =
     b \<lparr> fHashTable :=
           map (map (\<lambda>n. if fPattern n = pnode \<and> of_nat depth < fMinDepth n
                          then n \<lparr> fMinDepth := of_nat depth \<rparr> else n)) (fHashTable b) \<rparr>"

subsection \<open>MakeChildNodes\<close>

text \<open>A loop over a list whose body can fail: the first failure ends it.\<close>

fun for_each :: "('b \<Rightarrow> 'a \<Rightarrow> error + 'b) \<Rightarrow> 'b \<Rightarrow> 'a list \<Rightarrow> error + 'b" where
  "for_each f b [] = Inr b"
| "for_each f b (x # xs) = (case f b x of Inl e \<Rightarrow> Inl e | Inr b1 \<Rightarrow> for_each f b1 xs)"

lemma for_each_cong [fundef_cong]:
  "b = b' \<Longrightarrow> xs = ys \<Longrightarrow> (\<And>c x. x \<in> set ys \<Longrightarrow> f c x = g c x) \<Longrightarrow>
     for_each f b xs = for_each g b' ys"
  by (induction ys arbitrary: b b' xs) (auto split: sum.splits)

lemma ChildIter_search_fCount: "fCount (ChildIter_search it c) < int c"
proof (induction c arbitrary: it)
  case 0
  show ?case by simp
next
  case (Suc c)
  have "fCount (ChildIter_search (it \<lparr> itChild := ch, fCount := int c \<rparr>) c) < int (Suc c)" for ch
    using Suc.IH [of "it \<lparr> itChild := ch, fCount := int c \<rparr>"] by simp
  then show ?case
    by (simp add: Let_def)
qed

lemma ChildIter_incr_fCount:
  "ChildIter_valid it \<Longrightarrow> 0 \<le> fCount it \<and> fCount (ChildIter_incr it) + 1 \<le> fCount it"
  using ChildIter_search_fCount [of it "nat (fCount it)"]
  by (auto simp: ChildIter_incr_def ChildIter_valid_def)

text \<open>
  The \<open>while( it )\<close> loop of \<open>MakeChildNodes\<close> that tries every child the iterator yields:
  an existing pattern is linked when the depth is at least its \<open>fMinDepth\<close> or it passes
  the slope test; a new one is stored and linked when it passes both tests.
\<close>

function make_children ::
  "(nat list \<Rightarrow> nat) \<Rightarrow> Settings \<Rightarrow> Build \<Rightarrow> nat \<Rightarrow> nat \<Rightarrow> ChildIter \<Rightarrow> error + Build" where
  "make_children Hash s b parent depth it =
     (if \<not> ChildIter_valid it then Inr b
      else
        let child = itChild it in
        case Find Hash b child of
          Inl e \<Rightarrow> Inl e
        | Inr (Some node) \<Rightarrow>
            let pat = fPattern node in
            if of_nat depth \<ge> fMinDepth node \<or> TestSlope s (fBits (pool b ! pat)) depth
            then make_children Hash s (AddChild b parent pat (fType it)) parent depth
                   (ChildIter_incr it)
            else make_children Hash s b parent depth (ChildIter_incr it)
        | Inr None \<Rightarrow>
            if \<not> TestSlope s child depth
            then make_children Hash s b parent depth (ChildIter_incr it)
            else
              (case LineCheck s child of
                 Inl e \<Rightarrow> Inl e
               | Inr ok \<Rightarrow>
                   if ok then
                     let pat = length (pool b);
                         b1 = b \<lparr> pool := pool b @ [\<lparr> fBits = child, fChild = [] \<rparr>] \<rparr>;
                         b2 = AddHash Hash s b1 pat
                     in make_children Hash s (AddChild b2 parent pat (fType it)) parent depth
                          (ChildIter_incr it)
                   else make_children Hash s b parent depth (ChildIter_incr it)))"
  by pat_completeness auto
termination
  by (relation "measure (\<lambda>(Hash, s, b, parent, depth, it). nat (fCount it + 1))")
    (simp_all add: ChildIter_incr_fCount)

declare make_children.simps [simp del]

function MakeChildNodes ::
  "(nat list \<Rightarrow> nat) \<Rightarrow> Settings \<Rightarrow> Build \<Rightarrow> nat \<Rightarrow> nat \<Rightarrow> error + Build" where
  "MakeChildNodes Hash s b pnode depth =
     (let b1 = (if depth > 0 then UsedAtDepth b pnode (depth - 1) else b) in
      if depth \<ge> fNlevels s then Inr b1
      else
        let parent = pnode in
        case (if fChild (pool b1 ! parent) = []
              then make_children Hash s b1 parent depth (ChildIter_ctor (fBits (pool b1 ! parent)))
              else Inr b1) of
          Inl e \<Rightarrow> Inl e
        | Inr b2 \<Rightarrow>
            for_each
              (\<lambda>c lnk.
                 let pat = lnPattern lnk in
                 case Find Hash c (fBits (pool c ! pat)) of
                   Inl e \<Rightarrow> Inl e
                 | Inr None \<Rightarrow> Inl AssertionFailed
                 | Inr (Some node) \<Rightarrow>
                     if fChild (pool c ! pat) = [] \<or> fMinDepth node > of_nat depth
                     then MakeChildNodes Hash s c (fPattern node) (depth + 1)
                     else Inr c)
              b2 (fChild (pool b2 ! parent)))"
  by pat_completeness auto
termination
  by (relation "measure (\<lambda>(Hash, s, b, pnode, depth). fNlevels s - depth)") auto

declare MakeChildNodes.simps [simp del]

subsection \<open>Generate\<close>

record TreeParam_t =
  maxdepth :: nat
  width :: real
  zpos :: "real list"
  maxslope :: real

text \<open>
  Modelled from the spec: \<open>PatternTree::Normalize\<close> is not among the sources. The
  specification asks for \<open>maxDepth\<close> in 1..16, a positive width, at least two strictly
  increasing z-positions and a non-negative \<open>maxSlope\<close>; normalisation maps the
  z-positions to the interval from 0 to 1 and rejects every other input with a non-zero
  result.
\<close>

definition Normalize :: "TreeParam_t \<Rightarrow> int \<times> TreeParam_t" where
  "Normalize p =
     (if 1 \<le> maxdepth p \<and> maxdepth p \<le> 16 \<and> width p > 0 \<and> length (zpos p) \<ge> 2 \<and>
         sorted_wrt (<) (zpos p) \<and> maxslope p \<ge> 0
      then (0, p \<lparr> zpos := map (\<lambda>z. (z - hd (zpos p)) / (last (zpos p) - hd (zpos p))) (zpos p) \<rparr>)
      else (- 1, p))"

record Statistics_t =
  nPatterns :: nat
  nLinks :: nat
  MaxChildListLength :: nat
  MaxHashDepth :: nat

record PatternGenerator =
  gSettings :: Settings
  gBuild :: Build
  fStats :: Statistics_t

definition DeleteTree :: "PatternGenerator \<Rightarrow> PatternGenerator" where
  "DeleteTree g = g \<lparr> gBuild := \<lparr> fHashTable = [], pool = [] \<rparr> \<rparr>"

text \<open>\<open>CalcStatistics\<close>, without the byte counts, which need the sizes of the classes.\<close>

definition CalcStatistics :: "Build \<Rightarrow> Statistics_t" where
  "CalcStatistics b =
     (let nodes = concat (fHashTable b);
          lists = map (\<lambda>n. length (fChild (pool b ! fPattern n))) nodes
      in \<lparr> nPatterns = length nodes,
           nLinks = sum_list lists,
           MaxChildListLength = fold max lists 0,
           MaxHashDepth = fold max (map length (fHashTable b)) 0 \<rparr>)"

text \<open>
  \<open>PatternGenerator::Generate\<close>. The result is the returned \<open>PatternTree*\<close> (\<open>None\<close> is
  the zero pointer) and the generator afterwards. The pointer \<open>tree\<close> is set to zero and
  the statement that would create the tree is commented out in the source, so the
  branch \<open>if( tree )\<close> is never taken. Without a plane the first step of \<open>ChildIter\<close> would
  read outside the bits of the root; that is the error \<open>OutOfRange\<close>.
\<close>

definition Generate ::
  "(nat list \<Rightarrow> nat) \<Rightarrow> PatternGenerator \<Rightarrow> TreeParam_t \<Rightarrow> error + (nat option \<times> PatternGenerator)" where
  "Generate Hash g0 parameters =
     (let g = DeleteTree g0;
          (rc, par) = Normalize parameters
      in if rc \<noteq> 0 then Inr (None, g)
         else
           let s = \<lparr> fNlevels = maxdepth par + 1, fNplanes = length (zpos par),
                     fMaxSlope = maxslope par, fZ = zpos par \<rparr>
           in if fNplanes s = 0 then Inl OutOfRange
              else
                let root = 0;
                    b0 = \<lparr> fHashTable = [], pool = [Pattern_new (fNplanes s)] \<rparr>;
                    hroot = root;
                    b1 = AddHash Hash s b0 root
                in case MakeChildNodes Hash s b1 hroot 1 of
                     Inl e \<Rightarrow> Inl e
                   | Inr b \<Rightarrow>
                       let tree = None
                       in Inr (tree, \<lparr> gSettings = s, gBuild = b, fStats = CalcStatistics b \<rparr>))"


subsection \<open>Normalised patterns\<close>

text \<open>
  A pattern is normalised when it has bits, its first bit is 0, no bit is larger than
  the last one, and the last one fits a \<open>UShort_t\<close>. The pool is in order when all its
  patterns are normalised and every hash node holds the address of a pattern of the
  pool; an iterator is in order when its parent is normalised and, while it is valid, so
  is its current child.
\<close>

definition normal :: "nat list \<Rightarrow> bool" where
  "normal bits \<longleftrightarrow> bits \<noteq> [] \<and> hd bits = 0 \<and> (\<forall>x \<in> set bits. x \<le> last bits) \<and> last bits < 65536"

definition pool_ok :: "Build \<Rightarrow> bool" where
  "pool_ok b \<longleftrightarrow>
     (\<forall>p \<in> set (pool b). normal (fBits p)) \<and>
     (\<forall>n \<in> set (concat (fHashTable b)). fPattern n < length (pool b))"

definition iter_ok :: "ChildIter \<Rightarrow> bool" where
  "iter_ok it \<longleftrightarrow> normal (fParent it) \<and> (ChildIter_valid it \<longrightarrow> normal (itChild it))"

text \<open>
  The stored patterns that fail the slope test at their final \<open>fMinDepth\<close>, each with that
  depth.
\<close>

definition slope_failures :: "PatternGenerator \<Rightarrow> (nat list \<times> 32 word) list" where
  "slope_failures g =
     map (\<lambda>n. (fBits (pool (gBuild g) ! fPattern n), fMinDepth n))
       (filter (\<lambda>n. \<not> TestSlope (gSettings g) (fBits (pool (gBuild g) ! fPattern n))
                        (unat (fMinDepth n)))
          (concat (fHashTable (gBuild g))))"

section \<open>PatternGenerator.cxx: writing the tree\<close>

text \<open>
  An output stream is the bytes written so far and its fail bit; \<open>put\<close> on a stream that
  has failed writes nothing. Writing to the open file never sets the fail bit in this
  model, so a stream fails only when it is handed over in that state.
\<close>

record ostream =
  written :: "8 word list"
  failbit :: bool

definition put :: "ostream \<Rightarrow> 8 word \<Rightarrow> ostream" where
  "put os c = (if failbit os then os else os \<lparr> written := written os @ [c] \<rparr>)"

text \<open>
  \<open>swapped_binary_write\<close> on a host that swaps bytes (\<open>R__BYTESWAP\<close>, little-endian
  memory). \<open>memory_image\<close> is the array \<open>bytes\<close>, the elements of \<open>data\<close> with the low byte
  first; \<open>be_bytes\<close> is an element with the high byte first. The loop runs \<open>i\<close> from \<open>start\<close> to \<open>n * size\<close> and puts
  \<open>bytes[(i&~k)+(k-i&k)]\<close> with \<open>k = size - 1\<close>; as \<open>size\<close> is a power of two, \<open>i & ~k\<close> is
  \<open>i - i mod size\<close> and \<open>(k - i) & k\<close> is \<open>k - i mod size\<close>. Reading more elements than
  \<open>data\<close> has is the error \<open>OutOfRange\<close>.
\<close>

definition le_bytes :: "'a::len word \<Rightarrow> 8 word list" where
  "le_bytes w = map (\<lambda>j. ucast (drop_bit (8 * j) w)) [0 ..< LENGTH('a) div 8]"

definition be_bytes :: "'a::len word \<Rightarrow> 8 word list" where
  "be_bytes w = rev (le_bytes w)"

definition memory_image :: "'a::len word list \<Rightarrow> 8 word list" where
  "memory_image data = concat (map le_bytes data)"

definition swapped_binary_write ::
  "ostream \<Rightarrow> 'a::len word list \<Rightarrow> nat \<Rightarrow> nat \<Rightarrow> error + ostream" where
  "swapped_binary_write os data n start =
     (let size = LENGTH('a) div 8;
          bytes = memory_image data;
          k = size - 1
      in if start < n * size \<and> length bytes < n * size then Inl OutOfRange
         else Inr (fold (\<lambda>i s. put s (bytes ! ((i - i mod size) + (k - i mod size))))
                     [start ..< n * size] os))"

text \<open>
  The visitor \<open>WritePattern\<close>. \<open>os\<close> is \<open>None\<close> when the file could not be opened (the null
  pointer); \<open>fMap\<close> is the map from pattern addresses to indices, kept as the list of its
  entries in the order they were made. The constructor gets the file name and whether
  the file system opens the file.
\<close>

record WritePattern =
  os :: "ostream option"
  fIdxSiz :: nat
  fMap :: "(nat \<times> nat) list"

definition WritePattern_ctor :: "bool \<Rightarrow> string \<Rightarrow> nat \<Rightarrow> WritePattern" where
  "WritePattern_ctor opens filename index_size =
     \<lparr> os = (if filename \<noteq> [] \<and> opens then Some \<lparr> written = [], failbit = False \<rparr> else None),
       fIdxSiz = (if ((of_nat index_size :: 64 word) AND (of_nat index_size - 1)) \<noteq> 0
                  then 4 else index_size),
       fMap = [] \<rparr>"

text \<open>
  \<open>WritePattern::operator()\<close>. The result is the returned code (0: go on with the child
  nodes, 1: do not, -1: error) and the visitor afterwards. \<open>GetNbits()-1\<close> is computed in
  \<open>UInt_t\<close>, the child count in \<open>UShort_t\<close>, and the skip count \<open>sizeof(Int_t)-fIdxSiz\<close> in
  \<open>size_t\<close>.
\<close>

definition WritePattern_call ::
  "Pattern list \<Rightarrow> WritePattern \<Rightarrow> NodeDescriptor \<Rightarrow> error + (int \<times> WritePattern)" where
  "WritePattern_call pl w nd =
     (case os w of
        None \<Rightarrow> Inr (- 1, w)
      | Some s \<Rightarrow>
          let node = lnPattern (link nd) in
          case map_of (fMap w) node of
            None \<Rightarrow>
              let n = length (fMap w);
                  w1 = w \<lparr> fMap := fMap w @ [(node, n)] \<rparr>;
                  s1 = put s (of_nat (lnType (link nd) OR 128))
              in if failbit s1 then Inr (- 1, w1 \<lparr> os := Some s1 \<rparr>)
                 else
                   (case swapped_binary_write s1
                           (map of_nat (drop 1 (fBits (pl ! node))) :: 16 word list)
                           (nat ((int (length (fBits (pl ! node))) - 1) mod 2 ^ 32)) 0 of
                      Inl e \<Rightarrow> Inl e
                    | Inr s2 \<Rightarrow>
                        let nchild = fold (\<lambda>lnk c. c + 1) (fChild (pl ! node)) (0 :: 16 word)
                        in (case swapped_binary_write s2 [nchild] 1 0 of
                              Inl e \<Rightarrow> Inl e
                            | Inr s3 \<Rightarrow>
                                if failbit s3 then Inr (- 1, w1 \<lparr> os := Some s3 \<rparr>)
                                else Inr (0, w1 \<lparr> os := Some s3 \<rparr>)))
          | Some idx \<Rightarrow>
              let s1 = put s (of_nat (lnType (link nd)))
              in (case swapped_binary_write s1 [of_nat idx :: 32 word] 1
                         (nat ((4 - int (fIdxSiz w)) mod 2 ^ 64)) of
                    Inl e \<Rightarrow> Inl e
                  | Inr s2 \<Rightarrow>
                      if failbit s2 then Inr (- 1, w \<lparr> os := Some s2 \<rparr>)
                      else Inr (1, w \<lparr> os := Some s2 \<rparr>)))"

text \<open>The visitor applied to a sequence of descriptors, in the order the walker meets them.\<close>

fun WritePattern_calls ::
  "Pattern list \<Rightarrow> WritePattern \<Rightarrow> NodeDescriptor list \<Rightarrow> error + WritePattern" where
  "WritePattern_calls pl w [] = Inr w"
| "WritePattern_calls pl w (nd # rest) =
     (case WritePattern_call pl w nd of
        Inl e \<Rightarrow> Inl e
      | Inr (ret, w1) \<Rightarrow> WritePattern_calls pl w1 rest)"

text \<open>The patterns of a sequence of visits in the order in which they are first seen.\<close>

definition first_seen :: "nat list \<Rightarrow> nat list" where
  "first_seen ps = rev (remdups (rev ps))"

text \<open>
  The visitor has an open stream that has not failed, the index size \<open>isz\<close>, and a map that
  gives every pattern of the visits \<open>ps\<close> its rank in the order of first visits.
\<close>

definition visitor_ok :: "WritePattern \<Rightarrow> nat \<Rightarrow> nat list \<Rightarrow> bool" where
  "visitor_ok w isz ps \<longleftrightarrow>
     (\<exists>s. os w = Some s \<and> \<not> failbit s) \<and> fIdxSiz w = isz \<and>
     fMap w = zip (first_seen ps) [0 ..< length (first_seen ps)]"

text \<open>The choice of the index size in \<open>PatternGenerator::Write\<close>.\<close>

definition Write_index_size :: "nat \<Rightarrow> nat" where
  "Write_index_size npatterns =
     (if npatterns < 2 ^ 8 then 1 else if npatterns < 2 ^ 16 then 2 else 4)"

text \<open>
  Modelled from the spec: \<open>TreeWalk\<close> is declared in TreeWalk.h, which is not among the
  sources. The walk is depth first and in pre-order; at each descent through a link of
  type \<open>t\<close> the depth grows by one, the shift becomes \<open>(shift << 1) + (t & 1)\<close> and the
  mirror flag is flipped when \<open>t & 2\<close> is set. The visitor returns 0 to recurse, 1 to skip
  the children, anything else to end the walk with that status. The first argument bounds
  the nesting of the walk; \<open>None\<close> says that the bound was too small.
\<close>

fun TreeWalk ::
    "nat \<Rightarrow> Pattern list \<Rightarrow> ('v \<Rightarrow> NodeDescriptor \<Rightarrow> error + (int \<times> 'v)) \<Rightarrow> 'v \<Rightarrow> NodeDescriptor
      \<Rightarrow> (error + (int \<times> 'v)) option"
  and TreeWalk_children ::
    "nat \<Rightarrow> Pattern list \<Rightarrow> ('v \<Rightarrow> NodeDescriptor \<Rightarrow> error + (int \<times> 'v)) \<Rightarrow> 'v \<Rightarrow> NodeDescriptor
      \<Rightarrow> Link list \<Rightarrow> (error + (int \<times> 'v)) option" where
  "TreeWalk 0 pl visit v nd = None"
| "TreeWalk (Suc k) pl visit v nd =
     (case visit v nd of
        Inl e \<Rightarrow> Some (Inl e)
      | Inr (ret, v1) \<Rightarrow>
          if ret = 0 then TreeWalk_children k pl visit v1 nd (fChild (pl ! lnPattern (link nd)))
          else if ret = 1 then Some (Inr (0, v1))
          else Some (Inr (ret, v1)))"
| "TreeWalk_children k pl visit v nd [] = Some (Inr (0, v))"
| "TreeWalk_children k pl visit v nd (lnk # rest) =
     (case TreeWalk k pl visit v
             (nd \<lparr> link := lnk, ndDepth := ndDepth nd + 1,
                   ndShift := 2 * ndShift nd + (lnType lnk AND 1),
                   mirrored := (mirrored nd \<noteq> (lnType lnk AND 2 \<noteq> 0)) \<rparr>) of
        None \<Rightarrow> None
      | Some (Inl e) \<Rightarrow> Some (Inl e)
      | Some (Inr (ret, v1)) \<Rightarrow>
          if ret \<noteq> 0 then Some (Inr (ret, v1))
          else TreeWalk_children k pl visit v1 nd rest)"

text \<open>
  \<open>PatternGenerator::Write\<close>. The root link is made from the pattern of the first node of
  bucket 0; without that node the C++ follows a null pointer. A walk nests at most once
  per pattern, since the visitor lets it recurse only at the first visit of a pattern.
\<close>

definition root_descriptor :: "nat \<Rightarrow> NodeDescriptor" where
  "root_descriptor pat =
     \<lparr> link = \<lparr> lnPattern = pat, lnType = 0 \<rparr>, ndDepth = 0, ndShift = 0, mirrored = False,
       hits = {||}, used = 0, ndNbits = 0, ndBin = (\<lambda>i. 0) \<rparr>"

definition Write ::
  "PatternGenerator \<Rightarrow> bool \<Rightarrow> string \<Rightarrow> (error + (int \<times> WritePattern)) option" where
  "Write g opens filename =
     (let index_size = Write_index_size (nPatterns (fStats g));
          write = WritePattern_ctor opens filename index_size
      in case fHashTable (gBuild g) of
           [] \<Rightarrow> Some (Inl OutOfRange)
         | bucket # _ \<Rightarrow>
             (case bucket of
                [] \<Rightarrow> Some (Inl NullPointer)
              | hashnode # _ \<Rightarrow>
                  TreeWalk (length (pool (gBuild g)) + 1) (pool (gBuild g))
                    (WritePattern_call (pool (gBuild g))) write
                    (root_descriptor (fPattern hashnode))))"

section \<open>HitPairIter\<close>

text \<open>
  A hit is known by its address; \<open>WireHit::Compare(hit, maxdist)\<close> looks at the left and
  right positions \<open>fPosL\<close> and \<open>fPosR\<close> of the two hits. A collection is the list of the
  addresses of its hits, and an iterator over it is the index of the hit that its next
  call of \<open>Next()\<close> returns; at the end \<open>Next()\<close> returns the null pointer \<open>None\<close>. A null
  collection has no iterator and behaves as an empty one: \<open>HitPairIter::Next\<close> uses an
  iterator only after it has got a hit from it.
\<close>

record WireHit =
  fPosL :: real
  fPosR :: real

definition Compare :: "WireHit \<Rightarrow> WireHit \<Rightarrow> real \<Rightarrow> int" where
  "Compare this rhs maxdist =
     (if fPosR this + maxdist < fPosL rhs then - 1
      else if fPosR rhs + maxdist < fPosL this then 1
      else 0)"

definition iter_Next :: "nat list \<Rightarrow> nat \<Rightarrow> nat option \<times> nat" where
  "iter_Next coll cur = (if cur < length coll then (Some (coll ! cur), cur + 1) else (None, cur))"

record HitPairIter =
  fCollA :: "nat list"
  fCollB :: "nat list"
  fIterA :: nat
  fIterB :: nat
  fSaveIter :: nat
  fSaveHit :: "nat option"
  fMaxDist :: real
  fStarted :: bool
  fScanning :: bool
  fCurrent :: "nat option \<times> nat option"
  fNext :: "nat option \<times> nat option"

text \<open>
  The loop \<open>while( hitB != nextB && hitB->Compare(hitA,fMaxDist) < 0 )\<close> that advances B
  after a scan; it yields the hit it stops at and the iterator.
\<close>

function reseek ::
  "(nat \<Rightarrow> WireHit) \<Rightarrow> nat list \<Rightarrow> real \<Rightarrow> nat \<Rightarrow> nat option \<Rightarrow> nat option \<Rightarrow> nat
     \<Rightarrow> error + (nat option \<times> nat)" where
  "reseek hs collB maxdist hitA nextB hitB cur =
     (if hitB \<noteq> nextB then
        (case hitB of
           None \<Rightarrow> Inl NullPointer
         | Some b \<Rightarrow>
             if Compare (hs b) (hs hitA) maxdist < 0
             then reseek hs collB maxdist hitA nextB
                    (fst (iter_Next collB cur)) (snd (iter_Next collB cur))
             else Inr (hitB, cur))
      else Inr (hitB, cur))"
  by pat_completeness auto
termination
  by (relation "measure (\<lambda>(hs, collB, maxdist, hitA, nextB, hitB, cur).
        (length collB - cur) + (if hitB = None then 0 else 1))")
    (auto simp: iter_Next_def)

declare reseek.simps [simp del]

definition Next :: "(nat \<Rightarrow> WireHit) \<Rightarrow> HitPairIter \<Rightarrow> error + HitPairIter" where
  "Next hs it0 =
     (let it1 = (if \<not> fStarted it0
                 then it0 \<lparr> fIterA := snd (iter_Next (fCollA it0) (fIterA it0)),
                            fIterB := snd (iter_Next (fCollB it0) (fIterB it0)),
                            fNext := (fst (iter_Next (fCollA it0) (fIterA it0)),
                                      fst (iter_Next (fCollB it0) (fIterB it0))),
                            fStarted := True \<rparr>
                 else it0);
          it = it1 \<lparr> fCurrent := fNext it1 \<rparr>;
          nxA = iter_Next (fCollA it) (fIterA it);
          nxB = iter_Next (fCollB it) (fIterB it)
      in case fCurrent it of
           (Some hitA, Some hitB) \<Rightarrow>
             let cmp = Compare (hs hitA) (hs hitB) (fMaxDist it) in
             if cmp = - 1
             then Inr (it \<lparr> fIterA := snd nxA, fNext := (fst nxA, snd (fNext it)),
                             fCurrent := (fst (fCurrent it), None) \<rparr>)
             else if cmp = 1
             then Inr (it \<lparr> fIterB := snd nxB, fNext := (fst (fNext it), fst nxB),
                             fCurrent := (None, snd (fCurrent it)) \<rparr>)
             else
               let nextB = fst nxB;
                   itb = it \<lparr> fIterB := snd nxB \<rparr>
               in if (case nextB of None \<Rightarrow> True
                      | Some nb \<Rightarrow> Compare (hs hitA) (hs nb) (fMaxDist it) < 0)
                  then
                    (if fScanning itb then
                       let its = itb \<lparr> fScanning := False, fIterB := fSaveIter itb \<rparr>
                       in (case fst nxA of
                             Some a \<Rightarrow>
                               (case reseek hs (fCollB its) (fMaxDist its) a nextB
                                       (fSaveHit its) (fIterB its) of
                                  Inl e \<Rightarrow> Inl e
                                | Inr (hb, cb) \<Rightarrow>
                                    Inr (its \<lparr> fIterA := snd nxA, fIterB := cb,
                                               fNext := (Some a, hb) \<rparr>))
                           | None \<Rightarrow>
                               Inr (its \<lparr> fIterA := snd nxA, fNext := (None, nextB) \<rparr>))
                     else Inr (itb \<lparr> fIterA := snd nxA, fNext := (fst nxA, nextB) \<rparr>))
                  else
                    let itc = (if \<not> fScanning itb
                               then itb \<lparr> fScanning := True, fSaveIter := fIterB itb,
                                          fSaveHit := Some hitB \<rparr>
                               else itb)
                    in Inr (itc \<lparr> fNext := (fst (fNext itc), nextB) \<rparr>)
         | (Some hitA, None) \<Rightarrow>
             Inr (it \<lparr> fIterA := snd nxA, fNext := (fst nxA, snd (fNext it)) \<rparr>)
         | (None, Some hitB) \<Rightarrow>
             Inr (it \<lparr> fIterB := snd nxB, fNext := (fst (fNext it), fst nxB) \<rparr>)
         | (None, None) \<Rightarrow> Inr it)"

text \<open>The constructor makes the iterators and calls \<open>Next\<close> once.\<close>

definition HitPairIter_ctor ::
  "(nat \<Rightarrow> WireHit) \<Rightarrow> nat list \<Rightarrow> nat list \<Rightarrow> real \<Rightarrow> error + HitPairIter" where
  "HitPairIter_ctor hs collA collB maxdist =
     Next hs \<lparr> fCollA = collA, fCollB = collB, fIterA = 0, fIterB = 0, fSaveIter = 0,
               fSaveHit = None, fMaxDist = maxdist, fStarted = False, fScanning = False,
               fCurrent = (None, None), fNext = (None, None) \<rparr>"

text \<open>
  A complete iteration: the current pair is taken and \<open>Next\<close> is called until both
  components of the current pair are null. The first argument bounds the number of
  pairs; \<open>None\<close> says that the bound was too small.
\<close>

fun emitted ::
  "nat \<Rightarrow> (nat \<Rightarrow> WireHit) \<Rightarrow> HitPairIter \<Rightarrow> (error + (nat option \<times> nat option) list) option" where
  "emitted 0 hs it = None"
| "emitted (Suc k) hs it =
     (if fCurrent it = (None, None) then Some (Inr [])
      else
        (case Next hs it of
           Inl e \<Rightarrow> Some (Inl e)
         | Inr it1 \<Rightarrow>
             (case emitted k hs it1 of
                None \<Rightarrow> None
              | Some (Inl e) \<Rightarrow> Some (Inl e)
              | Some (Inr ps) \<Rightarrow> Some (Inr (fCurrent it # ps)))))"

definition all_pairs ::
  "nat \<Rightarrow> (nat \<Rightarrow> WireHit) \<Rightarrow> nat list \<Rightarrow> nat list \<Rightarrow> real
     \<Rightarrow> (error + (nat option \<times> nat option) list) option" where
  "all_pairs k hs collA collB maxdist =
     (case HitPairIter_ctor hs collA collB maxdist of
        Inl e \<Rightarrow> Some (Inl e)
      | Inr it \<Rightarrow> emitted k hs it)"

subsection \<open>The state between two calls of \<open>Next\<close>\<close>

text \<open>
  What holds of a started iterator between two calls, with \<open>EA\<close> and \<open>EB\<close> the hits of A
  and of B that are in a pair already returned or in the current pair: a hit that an
  iterator has passed is in such a pair or is the hit kept in \<open>fNext\<close>; a null pointer in
  \<open>fNext\<close> says that the collection is exhausted (for B: that all its hits have been
  returned, since the iterator of B is set back at the end of a scan); while scanning,
  the saved iterator is not ahead of \<open>fIterB\<close> and the saved hit is not null.
\<close>

definition hp_inv :: "HitPairIter \<Rightarrow> nat set \<Rightarrow> nat set \<Rightarrow> bool" where
  "hp_inv it EA EB \<longleftrightarrow>
     fStarted it \<and>
     set (take (fIterA it) (fCollA it)) \<subseteq> EA \<union> set_option (fst (fNext it)) \<and>
     (fst (fNext it) = None \<longrightarrow> length (fCollA it) \<le> fIterA it) \<and>
     set (take (fIterB it) (fCollB it)) \<subseteq> EB \<union> set_option (snd (fNext it)) \<and>
     (snd (fNext it) = None \<longrightarrow> set (fCollB it) \<subseteq> EB) \<and>
     (fScanning it \<longrightarrow> fSaveIter it \<le> fIterB it \<and> fSaveHit it \<noteq> None)"

definition hp_measure :: "HitPairIter \<Rightarrow> nat" where
  "hp_measure it =
     ((length (fCollA it) - fIterA it) + (if fst (fNext it) = None then 0 else 1)) *
       (length (fCollB it) + 2) +
     ((length (fCollB it) - fIterB it) + (if snd (fNext it) = None then 0 else 1))"

text \<open>
  The hits of A still to be returned in a first component: the one in \<open>fNext\<close> and those
  that \<open>fIterA\<close> has not passed.
\<close>

definition pendingA :: "HitPairIter \<Rightarrow> nat list" where
  "pendingA it = (case fst (fNext it) of None \<Rightarrow> [] | Some h \<Rightarrow> [h]) @ drop (fIterA it) (fCollA it)"

section \<open>Example data\<close>

text \<open>
  A projection with three planes and three layers, two node descriptors at the addresses
  1 and 2 (every hit lies on the plane with its own number), and the roads that the
  calls below go through.
\<close>

definition ex_proj :: Projection where
  "ex_proj = \<lparr> fPlanes = [10, 11, 12], fLayers = [10, 11, 12], pHitpattern = 1 \<rparr>"

definition ex_nd :: "nat fset \<Rightarrow> nat \<Rightarrow> NodeDescriptor" where
  "ex_nd hs bin =
     \<lparr> link = \<lparr> lnPattern = 0, lnType = 0 \<rparr>, ndDepth = 3, ndShift = 0, mirrored = False,
       hits = hs, used = 0, ndNbits = 3, ndBin = (\<lambda>i. bin) \<rparr>"

definition ex_nds :: "nat \<Rightarrow> NodeDescriptor" where
  "ex_nds = (\<lambda>a. ex_nd {||} 0)(1 := ex_nd {|0, 1, 2|} 5, 2 := ex_nd {|0, 1|} 4)"

definition ex_build :: "nat list \<Rightarrow> nat fset \<Rightarrow> BuildInfo_t" where
  "ex_build ps cs =
     \<lparr> fPatterns = ps, fCommonHits = cs, fHitpattern = 1, fNlayers = 3, bNplanes = 3 \<rparr>"

definition ex_road :: "nat \<Rightarrow> nat \<Rightarrow> real \<Rightarrow> real \<Rightarrow> nat fset \<Rightarrow> BuildInfo_t option \<Rightarrow> Road" where
  "ex_road l r sl po hs b =
     \<lparr> fLeft = [l, l], fRight = [r, r], fSlope = sl, fPos = po, fChi2 = 1,
       fErr = [1, 1], fHits = hs, fBuild = b \<rparr>"

definition ex_roads :: "nat \<Rightarrow> Road" where
  "ex_roads = (\<lambda>a. ex_road 0 0 1 2 {||} None)(1 := ex_road 0 0 3 4 {||} None)"

text \<open>
  The two patterns of the smallest tree, descriptors for visits of them through a link of
  a given type, and a visitor with given bytes written and a given map.
\<close>

definition ex_tree_pool :: "Pattern list" where
  "ex_tree_pool =
     [\<lparr> fBits = [0, 0],
        fChild = [\<lparr> lnPattern = 0, lnType = 0 \<rparr>, \<lparr> lnPattern = 1, lnType = 2 \<rparr>,
                  \<lparr> lnPattern = 1, lnType = 0 \<rparr>, \<lparr> lnPattern = 0, lnType = 1 \<rparr>] \<rparr>,
      \<lparr> fBits = [0, 1], fChild = [] \<rparr>]"

definition ex_visit :: "nat \<Rightarrow> nat \<Rightarrow> NodeDescriptor" where
  "ex_visit pat t = (root_descriptor pat) \<lparr> link := \<lparr> lnPattern = pat, lnType = t \<rparr>, ndDepth := 1 \<rparr>"

definition ex_writer :: "8 word list \<Rightarrow> (nat \<times> nat) list \<Rightarrow> WritePattern" where
  "ex_writer bs m = \<lparr> os = Some \<lparr> written = bs, failbit = False \<rparr>, fIdxSiz = 1, fMap = m \<rparr>"

text \<open>
  A generator before its first build, the parameters of the smallest tree, the generator
  after that build, and parameters for a tree of depth 4 with a maximum slope of one half.
  The hash function of the examples is the last bit of the pattern.
\<close>

definition ex_generator :: PatternGenerator where
  "ex_generator =
     \<lparr> gSettings = \<lparr> fNlevels = 0, fNplanes = 0, fMaxSlope = 0, fZ = [] \<rparr>,
       gBuild = \<lparr> fHashTable = [], pool = [] \<rparr>,
       fStats = \<lparr> nPatterns = 0, nLinks = 0, MaxChildListLength = 0, MaxHashDepth = 0 \<rparr> \<rparr>"

definition ex_params :: TreeParam_t where
  "ex_params = \<lparr> maxdepth = 1, width = 1, zpos = [0, 1], maxslope = 0 \<rparr>"

definition ex_tree :: PatternGenerator where
  "ex_tree =
     \<lparr> gSettings = \<lparr> fNlevels = 2, fNplanes = 2, fMaxSlope = 0, fZ = [0, 1] \<rparr>,
       gBuild = \<lparr> fHashTable = [[\<lparr> fPattern = 0, fMinDepth = 0 \<rparr>],
                                 [\<lparr> fPattern = 1, fMinDepth = 1 \<rparr>]],
                  pool = ex_tree_pool \<rparr>,
       fStats = \<lparr> nPatterns = 2, nLinks = 4, MaxChildListLength = 4, MaxHashDepth = 1 \<rparr> \<rparr>"

definition ex_params4 :: TreeParam_t where
  "ex_params4 = \<lparr> maxdepth = 4, width = 1, zpos = [0, 1], maxslope = 1 / 2 \<rparr>"

text \<open>
  Four wire hits with no drift distance: the hits 0 and 1 of one plane at the positions 0
  and 1, the hits 2 and 3 of its partner plane at the positions 0 and 1. With \<open>maxdist = 1\<close>
  each hit of one plane matches both hits of the other.
\<close>

definition ex_wirehits :: "nat \<Rightarrow> WireHit" where
  "ex_wirehits h = (if h = 0 \<or> h = 2 then \<lparr> fPosL = 0, fPosR = 0 \<rparr>
                    else \<lparr> fPosL = 1, fPosR = 1 \<rparr>)"

section \<open>MWDC::GetRefTime\<close>

text \<open>
  Claim C10. For every index \<open>i\<close>, \<open>MWDC::GetRefTime(i)\<close> returns \<open>fRefTime[i]\<close> when \<open>i\<close> is
  less than the size of the reference map (the vector \<open>fRefTime\<close> has that size, as its
  declaration says) and returns \<open>kBig\<close> otherwise; in the second case the vector is not
  indexed: the result is \<open>kBig\<close> whatever the vector holds, also when it is empty.
\<close>

theorem GetRefTime_in_range_or_kBig:
  "(i < fRefMapSize m \<longrightarrow> length (fRefTime m) = unat (fRefMapSize m) \<longrightarrow>
      GetRefTime kBig m i = Inr (fRefTime m ! unat i)) \<and>
   (\<not> i < fRefMapSize m \<longrightarrow>
      GetRefTime kBig m i = Inr kBig \<and> GetRefTime kBig (m \<lparr> fRefTime := v \<rparr>) i = Inr kBig)"
  by (simp add: GetRefTime_def word_less_nat_alt vector_at_def)

theorem GetRefTime_in_range_or_kBig_witness:
  "GetRefTime 100 \<lparr> fRefMapSize = 2, fRefTime = [7, 8] \<rparr> 1 = Inr 8 \<and>
   GetRefTime 100 \<lparr> fRefMapSize = 2, fRefTime = [7, 8] \<rparr> 2 = Inr 100 \<and>
   GetRefTime 100 \<lparr> fRefMapSize = 2, fRefTime = [] \<rparr> 2 = Inr 100"
  using GetRefTime_in_range_or_kBig [of 1 "\<lparr> fRefMapSize = 2, fRefTime = [7, 8] \<rparr>" 100 "[]"]
    GetRefTime_in_range_or_kBig [of 2 "\<lparr> fRefMapSize = 2, fRefTime = [7, 8] \<rparr>" 100 "[]"]
  by simp

section \<open>Road::operator= and the copy constructor\<close>

text \<open>
  Claim C9, as the specification states it: after \<open>r = orig\<close> the value of \<open>r.fPos\<close> is
  \<open>orig.fSlope\<close> rather than \<open>orig.fPos\<close>. The assignment operator does not do that: with
  \<open>orig.fSlope = 3\<close> and \<open>orig.fPos = 4\<close> the target's \<open>fPos\<close> is 4 afterwards.
\<close>

theorem Road_assign_fPos_counterexample:
  "fPos (Road_assign ex_roads 0 1 0) \<noteq> fSlope (ex_roads 1) \<and>
   fPos (Road_assign ex_roads 0 1 0) = 4 \<and> fSlope (ex_roads 1) = 3"
  by (simp add: Road_assign_def ex_roads_def ex_road_def)

text \<open>
  Claim C9, amended. \<open>Road::operator=\<close> gives the target's \<open>fPos\<close> the source's \<open>fPos\<close>
  (also when both are the same object); it is the copy constructor \<open>Road(const Road&)\<close>
  that initialises \<open>fPos\<close> from \<open>orig.fSlope\<close>.
\<close>

theorem Road_assign_copies_fPos:
  "fPos (Road_assign st this rhs this) = fPos (st rhs) \<and> fPos (Road_copy orig) = fSlope orig"
  by (simp add: Road_assign_def Road_copy_def)

section \<open>Road::Add\<close>

lemma CheckMatch_update [simp]:
  "CheckMatch planeNum (b \<lparr> fPatterns := ps \<rparr>) hs = CheckMatch planeNum b hs"
  "CheckMatch planeNum (b \<lparr> fCommonHits := cs \<rparr>) hs = CheckMatch planeNum b hs"
  by (simp_all add: CheckMatch_def)

lemma fcard_inter_same:
  assumes "\<not> fcard (A |\<inter>| B) < fcard B"
  shows "A |\<inter>| B = B"
proof -
  have "A |\<inter>| B |\<subseteq>| B" by auto
  moreover have "fcard B \<le> fcard (A |\<inter>| B)" using assms by simp
  ultimately show ?thesis by (metis fcard_seteq)
qed

lemma Add_step:
  assumes "road_ok planeNum nds r" and "Add planeNum nds r a = Inr (ok, r')"
  shows "road_ok planeNum nds r' \<and>
         (ok \<longrightarrow> (\<exists>b'. fBuild r' = Some b' \<and> a \<in> set (fPatterns b') \<and>
             (\<forall>b. fBuild r = Some b \<longrightarrow> fPatterns b \<noteq> [] \<longrightarrow> fCommonHits b' |\<subseteq>| fCommonHits b)))"
proof (cases "fBuild r")
  case None
  with assms show ?thesis by (auto simp: Add_def)
next
  case (Some b)
  show ?thesis
  proof (cases "fPatterns b = []")
    case True
    with assms Some show ?thesis
      by (auto simp: Add_def Add_finish_def road_ok_def Let_def split: if_splits)
  next
    case False
    let ?new = "hits (nds a) |\<inter>| fCommonHits b"
    from assms(1) Some False have inv:
      "\<forall>h. h |\<in>| fCommonHits b \<longleftrightarrow> (\<forall>x \<in> set (fPatterns b). h |\<in>| hits (nds x))"
      "CheckMatch planeNum b (fCommonHits b)" "fCommonHits b |\<subseteq>| fHits r"
      by (auto simp: road_ok_def)
    show ?thesis
    proof (cases "fcard ?new < fcard (fCommonHits b)")
      case True
      with assms(2) Some False inv show ?thesis
        by (auto simp: Add_def Add_finish_def road_ok_def Let_def split: if_splits)
    next
      case nl: False
      then have eq: "?new = fCommonHits b" by (rule fcard_inter_same)
      then have sub: "fCommonHits b |\<subseteq>| hits (nds a)" by blast
      have all: "\<forall>h. h |\<in>| fCommonHits b \<longleftrightarrow> (\<forall>x \<in> set (fPatterns b @ [a]). h |\<in>| hits (nds x))"
        using inv(1) sub by auto
      have hs: "fCommonHits b |\<subseteq>| fHits r |\<union>| hits (nds a)"
        using inv(3) by auto
      from assms(2) Some False nl obtain r1 where
        r1: "r' = r1 \<lparr> fBuild := Some (b \<lparr> fPatterns := fPatterns b @ [a] \<rparr>) \<rparr>" "ok"
          "fHits r1 = fHits r \<or> fHits r1 = fHits r |\<union>| hits (nds a)"
        by (auto simp: Add_def Add_finish_def Let_def split: if_splits)
      have "fCommonHits b |\<subseteq>| fHits r1" using r1(3) inv(3) hs by auto
      with r1 all inv(2) Some show ?thesis
        by (simp add: road_ok_def)
    qed
  qed
qed

lemma Road_ctor_ok: "Road_ctor kBig proj = Inr r0 \<Longrightarrow> road_ok planeNum nds r0"
  by (auto simp: Road_ctor_def road_ok_def Let_def split: if_splits)

lemma AddAll_ok:
  "road_ok planeNum nds r0 \<Longrightarrow> AddAll planeNum nds r0 as = Inr r \<Longrightarrow> road_ok planeNum nds r"
proof (induction as arbitrary: r0)
  case Nil
  then show ?case by simp
next
  case (Cons a as)
  then show ?case
    by (auto split: sum.splits dest: Add_step)
qed

text \<open>
  Claim C2. Take a road as its constructor leaves it and any sequence of \<open>Add\<close> calls on
  it, and one more \<open>Add\<close> that returns true. Afterwards the descriptor is among the
  road's patterns, the common hits are exactly the hits that every accepted descriptor
  has (the intersection of their hit sets), \<open>CheckMatch\<close> holds of the common hits, they
  are a subset of \<open>fHits\<close>, and, when the road had a pattern before, they are a subset of
  the common hits before and so no more in number.
\<close>

theorem Add_common_hits_invariant:
  assumes "Road_ctor kBig proj = Inr r0"
    and "AddAll planeNum nds r0 as = Inr r"
    and "Add planeNum nds r a = Inr (True, r')"
  shows "\<exists>b'. fBuild r' = Some b' \<and> a \<in> set (fPatterns b') \<and>
           (\<forall>h. h |\<in>| fCommonHits b' \<longleftrightarrow> (\<forall>x \<in> set (fPatterns b'). h |\<in>| hits (nds x))) \<and>
           CheckMatch planeNum b' (fCommonHits b') \<and>
           fCommonHits b' |\<subseteq>| fHits r' \<and>
           (\<forall>b. fBuild r = Some b \<longrightarrow> fPatterns b \<noteq> [] \<longrightarrow>
                fCommonHits b' |\<subseteq>| fCommonHits b \<and> fcard (fCommonHits b') \<le> fcard (fCommonHits b))"
proof -
  have ok: "road_ok planeNum nds r"
    using assms(1,2) by (blast intro: AddAll_ok Road_ctor_ok)
  from Add_step [OF ok assms(3)] obtain b' where
    b': "road_ok planeNum nds r'" "fBuild r' = Some b'" "a \<in> set (fPatterns b')"
        "\<forall>b. fBuild r = Some b \<longrightarrow> fPatterns b \<noteq> [] \<longrightarrow> fCommonHits b' |\<subseteq>| fCommonHits b"
    by auto
  then have ne: "fPatterns b' \<noteq> []" by auto
  with b' show ?thesis
    by (auto simp: road_ok_def fcard_mono)
qed

lemma upt3: "[0..<3] = [0, 1, 2]"
  by (simp add: upt_rec)

lemma ex_Road_ctor:
  "Road_ctor 1 ex_proj = Inr (ex_road 65535 0 1 1 {||} (Some (ex_build [] {||})))"
  by (simp add: Road_ctor_def ex_proj_def ex_road_def ex_build_def GetNlayers_def
      GetNplanes_def GetHitpattern_def kMaxUShort_def)

lemma ex_Add_first:
  "Add id ex_nds (ex_road 65535 0 1 1 {||} (Some (ex_build [] {||}))) 1 =
     Inr (True, ex_road 5 5 1 1 {|0, 1, 2|} (Some (ex_build [1] {|0, 1, 2|})))"
  by (simp add: Add_def Add_finish_def CheckMatch_def ex_nds_def ex_nd_def ex_road_def ex_build_def
      upt3 kMaxmiss_def)

lemma ex_Add_second:
  "Add id ex_nds (ex_road 5 5 1 1 {|0, 1, 2|} (Some (ex_build [1] {|0, 1, 2|}))) 2 =
     Inr (True, ex_road 4 5 1 1 {|0, 1, 2|} (Some (ex_build [1, 2] {|0, 1|})))"
  by (simp add: Add_def Add_finish_def CheckMatch_def ex_nds_def ex_nd_def ex_road_def ex_build_def
      upt3 kMaxmiss_def fcard_finsert_if Let_def)

theorem Add_common_hits_invariant_witness:
  "\<exists>b'. fBuild (ex_road 4 5 1 1 {|0, 1, 2|} (Some (ex_build [1, 2] {|0, 1|}))) = Some b' \<and>
      fPatterns b' = [1, 2] \<and> fCommonHits b' = {|0, 1|} \<and>
      (\<forall>h. h |\<in>| fCommonHits b' \<longleftrightarrow> (\<forall>x \<in> set (fPatterns b'). h |\<in>| hits (ex_nds x))) \<and>
      CheckMatch id b' (fCommonHits b') \<and> fcard (fCommonHits b') \<le> fcard {|0, 1, 2 :: nat|}"
proof -
  have run: "AddAll id ex_nds (ex_road 65535 0 1 1 {||} (Some (ex_build [] {||}))) [1] =
      Inr (ex_road 5 5 1 1 {|0, 1, 2|} (Some (ex_build [1] {|0, 1, 2|})))"
    unfolding AddAll.simps ex_Add_first by simp
  from Add_common_hits_invariant [OF ex_Road_ctor run ex_Add_second]
  show ?thesis
    by (simp add: ex_road_def ex_build_def)
qed

section \<open>Road::Finish\<close>

lemma Finish_loop_keeps:
  "Finish_loop nds common as = Inr nds' \<Longrightarrow>
     hits (nds' x) = hits (nds x) \<and>
     (x \<notin> set as \<or> (used (nds x) = 1 \<and> \<not> hits (nds x) |\<subseteq>| common) \<longrightarrow> nds' x = nds x)"
proof (induction as arbitrary: nds)
  case Nil
  then show ?case by simp
next
  case (Cons a as)
  let ?nd = "nds a"
  let ?nds1 = "nds(a := ?nd \<lparr> used := (if hits ?nd |-| common = {||} then 2 else 1) \<rparr>)"
  from Cons.prems have run: "Finish_loop ?nds1 common as = Inr nds'"
    by (simp add: Let_def split: if_splits)
  have sub: "hits ?nd |-| common = {||} \<longleftrightarrow> hits ?nd |\<subseteq>| common" by auto
  from Cons.IH [OF run] show ?case
    by (cases "x = a") (auto simp: sub)
qed

lemma Finish_loop_marks:
  "Finish_loop nds common as = Inr nds' \<Longrightarrow> x \<in> set as \<Longrightarrow>
     used (nds' x) \<in> {1, 2} \<and> (used (nds' x) = 2 \<longleftrightarrow> hits (nds' x) |\<subseteq>| common)"
proof (induction as arbitrary: nds)
  case Nil
  then show ?case by simp
next
  case (Cons a as)
  let ?nd = "nds a"
  let ?nds1 = "nds(a := ?nd \<lparr> used := (if hits ?nd |-| common = {||} then 2 else 1) \<rparr>)"
  from Cons.prems have run: "Finish_loop ?nds1 common as = Inr nds'"
    by (simp add: Let_def split: if_splits)
  have sub: "hits ?nd |-| common = {||} \<longleftrightarrow> hits ?nd |\<subseteq>| common" by auto
  show ?case
  proof (cases "x \<in> set as")
    case True
    from Cons.IH [OF run True] show ?thesis .
  next
    case False
    with Cons.prems have "x = a" by simp
    with Finish_loop_keeps [OF run, of a] False show ?thesis
      by (auto simp: sub)
  qed
qed

text \<open>
  Claim C3. When \<open>Road::Finish\<close> returns (no assertion fails), every descriptor \<open>nd\<close> that
  was accepted into the road (its address is in the road's pattern list) has \<open>nd.used\<close>
  equal to 1 or 2, and \<open>nd.used\<close> is 2 exactly when \<open>nd.hits\<close> is a subset of the common hits
  the road had, that is when the set difference \<open>nd.hits\<close> minus the common hits is empty.
  The hits of the descriptor are left as they were and the build data are released.
\<close>

theorem Finish_marks_used:
  assumes "Finish nds r = Inr (nds', r')" and "fBuild r = Some b" and "x \<in> set (fPatterns b)"
  shows "fBuild r' = None \<and> hits (nds' x) = hits (nds x) \<and> used (nds' x) \<in> {1, 2} \<and>
         (used (nds' x) = 2 \<longleftrightarrow> hits (nds' x) |\<subseteq>| fCommonHits b) \<and>
         (used (nds' x) = 2 \<longleftrightarrow> hits (nds' x) |-| fCommonHits b = {||})"
proof -
  from assms(1,2) have run: "Finish_loop nds (fCommonHits b) (fPatterns b) = Inr nds'"
    and r': "r' = r \<lparr> fBuild := None \<rparr>"
    by (auto simp: Finish_def split: sum.splits)
  have sub: "hits (nds' x) |-| fCommonHits b = {||} \<longleftrightarrow> hits (nds' x) |\<subseteq>| fCommonHits b"
    by auto
  from Finish_loop_marks [OF run assms(3)] Finish_loop_keeps [OF run, of x] r' show ?thesis
    unfolding sub by auto
qed

lemma ex_Finish:
  "Finish ex_nds (ex_road 4 5 1 1 {|0, 1, 2|} (Some (ex_build [1, 2] {|0, 1|}))) =
     Inr (ex_nds (1 := (ex_nds 1) \<lparr> used := 1 \<rparr>, 2 := (ex_nds 2) \<lparr> used := 2 \<rparr>),
          ex_road 4 5 1 1 {|0, 1, 2|} None)"
  by (simp add: Finish_def ex_nds_def ex_nd_def ex_road_def ex_build_def Let_def)

theorem Finish_marks_used_witness:
  "used ((ex_nds (1 := (ex_nds 1) \<lparr> used := 1 \<rparr>, 2 := (ex_nds 2) \<lparr> used := 2 \<rparr>)) 1) = 1 \<and>
   used ((ex_nds (1 := (ex_nds 1) \<lparr> used := 1 \<rparr>, 2 := (ex_nds 2) \<lparr> used := 2 \<rparr>)) 2) = 2 \<and>
   \<not> hits (ex_nds 1) |\<subseteq>| {|0, 1|} \<and> hits (ex_nds 2) |\<subseteq>| {|0, 1|}"
proof -
  have b: "fBuild (ex_road 4 5 1 1 {|0, 1, 2|} (Some (ex_build [1, 2] {|0, 1|}))) =
      Some (ex_build [1, 2] {|0, 1|})"
    by (simp add: ex_road_def)
  have "1 \<in> set (fPatterns (ex_build [1, 2] {|0, 1|}))" "2 \<in> set (fPatterns (ex_build [1, 2] {|0, 1|}))"
    by (simp_all add: ex_build_def)
  from Finish_marks_used [OF ex_Finish b this(1)] Finish_marks_used [OF ex_Finish b this(2)]
  show ?thesis
    by (simp add: ex_build_def ex_nds_def ex_nd_def)
qed

section \<open>WritePattern\<close>

lemma fold_put:
  "\<not> failbit s \<Longrightarrow> fold (\<lambda>i s. put s (f i)) xs s = s \<lparr> written := written s @ map f xs \<rparr>"
  by (induction xs arbitrary: s) (simp_all add: put_def)

lemma fold_put_failbit: "failbit (fold (\<lambda>i s. put s (f i)) xs s) = failbit s"
  by (induction xs arbitrary: s) (simp_all add: put_def)

lemma swapped_binary_write_failbit:
  "swapped_binary_write s data n start = Inr s1 \<Longrightarrow> failbit s1 = failbit s"
  by (auto simp: swapped_binary_write_def Let_def fold_put_failbit split: if_splits)

lemma le_bytes16: "le_bytes (w :: 16 word) = [ucast w, ucast (drop_bit 8 w)]"
  by (simp add: le_bytes_def upt_rec)

lemma be_bytes16: "be_bytes (w :: 16 word) = [ucast (drop_bit 8 w), ucast w]"
  by (simp add: be_bytes_def le_bytes16)

lemma le_bytes32:
  "le_bytes (w :: 32 word) = [ucast w, ucast (drop_bit 8 w), ucast (drop_bit 16 w), ucast (drop_bit 24 w)]"
  by (simp add: le_bytes_def upt_rec)

lemma be_bytes32:
  "be_bytes (w :: 32 word) = [ucast (drop_bit 24 w), ucast (drop_bit 16 w), ucast (drop_bit 8 w), ucast w]"
  by (simp add: be_bytes_def le_bytes32)

lemma memory_image16_nth:
  "n < length data \<Longrightarrow>
     memory_image data ! (2 * n) = ucast (data ! n :: 16 word) \<and>
     memory_image data ! (Suc (2 * n)) = ucast (drop_bit 8 (data ! n))"
proof (induction data arbitrary: n)
  case Nil
  then show ?case by simp
next
  case (Cons d ds)
  show ?case
  proof (cases n)
    case 0
    then show ?thesis by (simp add: memory_image_def le_bytes16)
  next
    case (Suc m)
    with Cons.prems have "m < length ds" by simp
    from Cons.IH [OF this] Suc show ?thesis
      by (simp add: memory_image_def le_bytes16)
  qed
qed

lemma length_memory_image16: "length (memory_image (data :: 16 word list)) = 2 * length data"
  by (induction data) (simp_all add: memory_image_def le_bytes16)

lemma swapped_bytes16:
  "n \<le> length (data :: 16 word list) \<Longrightarrow>
     map (\<lambda>i. memory_image data ! ((i - i mod 2) + (1 - i mod 2))) [0 ..< n * 2] =
     concat (map be_bytes (take n data))"
proof (induction n)
  case 0
  then show ?case by simp
next
  case (Suc n)
  then have n: "n < length data" by simp
  have upt: "[0 ..< Suc n * 2] = [0 ..< n * 2] @ [2 * n, Suc (2 * n)]"
    by (simp add: mult.commute)
  have m1: "(2 * n - 2 * n mod 2) + (1 - 2 * n mod 2) = Suc (2 * n)" by simp
  have m2: "(Suc (2 * n) - Suc (2 * n) mod 2) + (1 - Suc (2 * n) mod 2) = 2 * n" by simp
  from Suc n show ?case
    unfolding upt
    by (simp add: take_Suc_conv_app_nth be_bytes16 memory_image16_nth m1 m2 del: upt_Suc)
qed

lemma swapped_binary_write16:
  assumes "\<not> failbit s" and "n \<le> length (data :: 16 word list)"
  shows "swapped_binary_write s data n 0 =
           Inr (s \<lparr> written := written s @ concat (map be_bytes (take n data)) \<rparr>)"
  using assms swapped_bytes16 [OF assms(2)]
  by (simp add: swapped_binary_write_def Let_def fold_put length_memory_image16)

lemma swapped_binary_write32:
  assumes "\<not> failbit s" and "start \<le> 4"
  shows "swapped_binary_write s [x :: 32 word] 1 start =
           Inr (s \<lparr> written := written s @ drop start (be_bytes x) \<rparr>)"
proof -
  have "start = 0 \<or> start = 1 \<or> start = 2 \<or> start = 3 \<or> start = 4" using assms(2) by arith
  then show ?thesis
    using assms(1)
    by (auto simp: swapped_binary_write_def Let_def fold_put memory_image_def le_bytes32
        be_bytes32 upt_rec)
qed

lemma count_children: "fold (\<lambda>lnk c. c + 1) xs (c0 :: 16 word) = c0 + of_nat (length xs)"
  by (induction xs arbitrary: c0) (simp_all add: add.assoc)

lemma first_seen_snoc:
  "first_seen (ps @ [p]) = (if p \<in> set ps then first_seen ps else first_seen ps @ [p])"
  by (simp add: first_seen_def)

lemma set_first_seen [simp]: "set (first_seen ps) = set ps"
  by (simp add: first_seen_def)

lemma distinct_first_seen [simp]: "distinct (first_seen ps)"
  by (simp add: first_seen_def)

lemma map_of_zip_upt_None:
  "p \<notin> set qs \<Longrightarrow> map_of (zip qs [0 ..< length qs]) p = None"
  by (simp add: map_of_zip_is_None)

lemma map_of_zip_upt_Some:
  "p \<in> set qs \<Longrightarrow> \<exists>i. i < length qs \<and> qs ! i = p \<and> map_of (zip qs [0 ..< length qs]) p = Some i"
proof -
  assume "p \<in> set qs"
  then have "p \<in> fst ` set (zip qs [0 ..< length qs])"
    by (metis length_upt map_fst_zip diff_zero set_map)
  then obtain i where i: "map_of (zip qs [0 ..< length qs]) p = Some i"
    by (metis map_of_eq_None_iff not_None_eq)
  then have "(p, i) \<in> set (zip qs [0 ..< length qs])" by (rule map_of_SomeD)
  then obtain k where "k < length qs" "qs ! k = p" "[0 ..< length qs] ! k = i"
    by (auto simp: set_zip)
  with i show ?thesis by auto
qed

lemma zip_upt_snoc:
  "zip (qs @ [p]) [0 ..< length (qs @ [p])] = zip qs [0 ..< length qs] @ [(p, length qs)]"
  by simp

lemma nbits_minus_one:
  "bits \<noteq> [] \<Longrightarrow> length bits < 2 ^ 32 \<Longrightarrow>
     nat ((int (length bits) - 1) mod 2 ^ 32) = length (drop 1 bits)"
  by (cases bits) simp_all

lemma call_new:
  assumes "os w = Some s" "\<not> failbit s" "map_of (fMap w) (lnPattern (link nd)) = None"
    and "fBits (pl ! lnPattern (link nd)) \<noteq> []" "length (fBits (pl ! lnPattern (link nd))) < 2 ^ 32"
  shows "WritePattern_call pl w nd =
     Inr (0, w \<lparr> fMap := fMap w @ [(lnPattern (link nd), length (fMap w))],
                  os := Some (s \<lparr> written := written s @
                     [of_nat (lnType (link nd) OR 128)] @
                     concat (map be_bytes (map of_nat (tl (fBits (pl ! lnPattern (link nd)))) :: 16 word list)) @
                     be_bytes (of_nat (length (fChild (pl ! lnPattern (link nd)))) :: 16 word) \<rparr>) \<rparr>)"
proof -
  let ?bits = "fBits (pl ! lnPattern (link nd))"
  let ?s1 = "put s (of_nat (lnType (link nd) OR 128))"
  have s1: "?s1 = s \<lparr> written := written s @ [of_nat (lnType (link nd) OR 128)] \<rparr>" "\<not> failbit ?s1"
    using assms(2) by (simp_all add: put_def)
  have n: "nat ((int (length ?bits) - 1) mod 2 ^ 32) = length (drop 1 ?bits)"
    using assms(4,5) by (rule nbits_minus_one)
  have w1: "swapped_binary_write ?s1 (map of_nat (drop 1 ?bits) :: 16 word list)
      (nat ((int (length ?bits) - 1) mod 2 ^ 32)) 0 =
      Inr (?s1 \<lparr> written := written ?s1 @ concat (map be_bytes (map of_nat (drop 1 ?bits) :: 16 word list)) \<rparr>)"
    unfolding n using swapped_binary_write16 [OF s1(2), of "length (drop 1 ?bits)" "map of_nat (drop 1 ?bits)"]
    by simp
  let ?s2 = "?s1 \<lparr> written := written ?s1 @ concat (map be_bytes (map of_nat (drop 1 ?bits) :: 16 word list)) \<rparr>"
  have s2: "\<not> failbit ?s2" using s1(2) by simp
  have w2: "swapped_binary_write ?s2 [c :: 16 word] 1 0 = Inr (?s2 \<lparr> written := written ?s2 @ be_bytes c \<rparr>)" for c
    using swapped_binary_write16 [OF s2, of 1 "[c]"] by simp
  show ?thesis
    using assms(1,3) s1 w1 w2
    by (simp add: WritePattern_call_def Let_def count_children drop_Suc)
qed

lemma call_seen:
  assumes "os w = Some s" "\<not> failbit s" "map_of (fMap w) (lnPattern (link nd)) = Some idx"
    and "fIdxSiz w \<le> 4"
  shows "WritePattern_call pl w nd =
     Inr (1, w \<lparr> os := Some (s \<lparr> written := written s @
                     [of_nat (lnType (link nd))] @
                     drop (4 - fIdxSiz w) (be_bytes (of_nat idx :: 32 word)) \<rparr>) \<rparr>)"
proof -
  let ?s1 = "put s (of_nat (lnType (link nd)))"
  have s1: "?s1 = s \<lparr> written := written s @ [of_nat (lnType (link nd))] \<rparr>" "\<not> failbit ?s1"
    using assms(2) by (simp_all add: put_def)
  have st: "nat ((4 - int (fIdxSiz w)) mod 18446744073709551616) = 4 - fIdxSiz w"
    using assms(4) by (simp add: nat_diff_distrib')
  have "4 - fIdxSiz w \<le> 4" by simp
  from swapped_binary_write32 [OF s1(2) this, of "of_nat idx"] assms(1,3) s1 show ?thesis
    by (simp add: WritePattern_call_def Let_def st)
qed

lemma call_inv:
  assumes "os w = Some s" "\<not> failbit s" "WritePattern_call pl w nd = Inr (ret, w1)"
  shows "(\<exists>s1. os w1 = Some s1 \<and> \<not> failbit s1) \<and> fIdxSiz w1 = fIdxSiz w \<and>
         fMap w1 = (case map_of (fMap w) (lnPattern (link nd)) of
                      None \<Rightarrow> fMap w @ [(lnPattern (link nd), length (fMap w))]
                    | Some i \<Rightarrow> fMap w)"
  using assms
  by (auto simp: WritePattern_call_def Let_def put_def
      split: option.splits sum.splits if_splits dest!: swapped_binary_write_failbit)

lemma calls_snoc:
  "WritePattern_calls pl w (nds @ [nd]) =
     (case WritePattern_calls pl w nds of
        Inl e \<Rightarrow> Inl e
      | Inr w1 \<Rightarrow> (case WritePattern_call pl w1 nd of Inl e \<Rightarrow> Inl e | Inr (ret, w2) \<Rightarrow> Inr w2))"
  by (induction nds arbitrary: w) (auto split: sum.splits)

lemma calls_ok:
  "visitor_ok w0 isz [] \<Longrightarrow> WritePattern_calls pl w0 nds = Inr w \<Longrightarrow>
     visitor_ok w isz (map (\<lambda>nd. lnPattern (link nd)) nds)"
proof (induction nds arbitrary: w rule: rev_induct)
  case Nil
  then show ?case by simp
next
  case (snoc nd nds)
  from snoc.prems(2) obtain w1 ret where
    w1: "WritePattern_calls pl w0 nds = Inr w1" and c: "WritePattern_call pl w1 nd = Inr (ret, w)"
    by (auto simp: calls_snoc split: sum.splits)
  let ?ps = "map (\<lambda>nd. lnPattern (link nd)) nds"
  from snoc.IH [OF snoc.prems(1) w1] have ok: "visitor_ok w1 isz ?ps" .
  then obtain s where s: "os w1 = Some s" "\<not> failbit s" by (auto simp: visitor_ok_def)
  from call_inv [OF s c] ok show ?case
    by (auto simp: visitor_ok_def first_seen_snoc map_of_zip_upt_None
        dest: map_of_zip_upt_Some split: option.splits)
qed

lemma ctor_ok:
  "filename \<noteq> [] \<Longrightarrow> visitor_ok (WritePattern_ctor True filename (Write_index_size n)) (Write_index_size n) []"
  by (simp add: visitor_ok_def WritePattern_ctor_def Write_index_size_def first_seen_def)

lemma type_or_128: "t \<le> 2 \<Longrightarrow> t OR 128 = 128 + (t :: nat)"
proof -
  assume "t \<le> 2"
  then have "t = 0 \<or> t = 1 \<or> t = 2" by arith
  then show ?thesis by auto
qed

text \<open>
  Claim C6. Take the visitor as \<open>Write\<close> makes it for \<open>npatterns\<close> patterns (the file is
  opened) after any sequence of visits, and one more visit of a pattern that has bits,
  through a link of type 0, 1 or 2. If the pattern was not visited before, the visitor
  writes the header byte \<open>128 + type\<close>, the bits from bit 1 on as big-endian 16-bit values
  and the number of children as a big-endian 16-bit value, enters the pattern in its map
  and returns 0, so that the walk goes on into the children. If the pattern was visited
  before, it writes the header byte \<open>type\<close> and the rank of the pattern in the order of
  first visits, as the last 1, 2 or 4 bytes of its big-endian 32-bit value, and returns
  1, so that the walk leaves the children out. The index size is 1 for fewer than 256
  patterns, 2 for fewer than 65536, else 4.
\<close>

theorem WritePattern_first_visit_and_back_reference:
  assumes "filename \<noteq> []"
    and "WritePattern_calls pl (WritePattern_ctor True filename (Write_index_size npatterns)) nds = Inr w"
    and "fBits (pl ! lnPattern (link nd)) \<noteq> []"
    and "length (fBits (pl ! lnPattern (link nd))) < 2 ^ 32"
    and "lnType (link nd) \<le> 2"
  shows "\<exists>s. os w = Some s \<and>
    (lnPattern (link nd) \<notin> set (map (\<lambda>nd. lnPattern (link nd)) nds) \<longrightarrow>
       WritePattern_call pl w nd =
         Inr (0, w \<lparr> fMap := fMap w @ [(lnPattern (link nd), length (fMap w))],
                      os := Some (s \<lparr> written := written s @
                        [of_nat (128 + lnType (link nd))] @
                        concat (map be_bytes (map of_nat (tl (fBits (pl ! lnPattern (link nd)))) :: 16 word list)) @
                        be_bytes (of_nat (length (fChild (pl ! lnPattern (link nd)))) :: 16 word) \<rparr>) \<rparr>)) \<and>
    (lnPattern (link nd) \<in> set (map (\<lambda>nd. lnPattern (link nd)) nds) \<longrightarrow>
       (\<exists>idx < length (first_seen (map (\<lambda>nd. lnPattern (link nd)) nds)).
          first_seen (map (\<lambda>nd. lnPattern (link nd)) nds) ! idx = lnPattern (link nd) \<and>
          WritePattern_call pl w nd =
            Inr (1, w \<lparr> os := Some (s \<lparr> written := written s @
                        [of_nat (lnType (link nd))] @
                        drop (4 - Write_index_size npatterns) (be_bytes (of_nat idx :: 32 word)) \<rparr>) \<rparr>))) \<and>
    Write_index_size npatterns = (if npatterns < 256 then 1 else if npatterns < 65536 then 2 else 4)"
proof -
  let ?ps = "map (\<lambda>nd. lnPattern (link nd)) nds"
  let ?p = "lnPattern (link nd)"
  from calls_ok [OF ctor_ok [OF assms(1)] assms(2)]
  have ok: "visitor_ok w (Write_index_size npatterns) ?ps" .
  then obtain s where s: "os w = Some s" "\<not> failbit s"
    and isz: "fIdxSiz w = Write_index_size npatterns"
    and m: "fMap w = zip (first_seen ?ps) [0 ..< length (first_seen ?ps)]"
    by (auto simp: visitor_ok_def)
  have le: "fIdxSiz w \<le> 4" by (simp add: isz Write_index_size_def)
  have new: "WritePattern_call pl w nd =
         Inr (0, w \<lparr> fMap := fMap w @ [(?p, length (fMap w))],
                      os := Some (s \<lparr> written := written s @
                        [of_nat (128 + lnType (link nd))] @
                        concat (map be_bytes (map of_nat (tl (fBits (pl ! ?p))) :: 16 word list)) @
                        be_bytes (of_nat (length (fChild (pl ! ?p))) :: 16 word) \<rparr>) \<rparr>)"
    if "?p \<notin> set ?ps"
  proof -
    from that have "map_of (fMap w) ?p = None"
      unfolding m by (intro map_of_zip_upt_None) simp
    from call_new [OF s this assms(3,4)] show ?thesis
      by (simp add: type_or_128 [OF assms(5)])
  qed
  have seen: "\<exists>idx < length (first_seen ?ps). first_seen ?ps ! idx = ?p \<and>
          WritePattern_call pl w nd =
            Inr (1, w \<lparr> os := Some (s \<lparr> written := written s @
                        [of_nat (lnType (link nd))] @
                        drop (4 - Write_index_size npatterns) (be_bytes (of_nat idx :: 32 word)) \<rparr>) \<rparr>)"
    if "?p \<in> set ?ps"
  proof -
    from that have "?p \<in> set (first_seen ?ps)" by simp
    from map_of_zip_upt_Some [OF this] obtain i where
      i: "i < length (first_seen ?ps)" "first_seen ?ps ! i = ?p" "map_of (fMap w) ?p = Some i"
      unfolding m by blast
    from call_seen [OF s i(3) le] i(1,2) show ?thesis
      unfolding isz by blast
  qed
  from s new seen show ?thesis
    by (simp add: Write_index_size_def)
qed

lemma ex_write_root:
  "WritePattern_calls ex_tree_pool (WritePattern_ctor True ''tree'' (Write_index_size 2))
      [root_descriptor 0] = Inr (ex_writer [128, 0, 0, 0, 4] [(0, 0)])"
proof -
  let ?w = "WritePattern_ctor True ''tree'' (Write_index_size 2)"
  have w: "?w = ex_writer [] []"
    by (simp add: WritePattern_ctor_def Write_index_size_def ex_writer_def)
  have "WritePattern_call ex_tree_pool (ex_writer [] []) (root_descriptor 0) =
      Inr (0, ex_writer [128, 0, 0, 0, 4] [(0, 0)])"
    by (subst call_new [where s = "\<lparr> written = [], failbit = False \<rparr>"])
      (simp_all add: ex_writer_def root_descriptor_def ex_tree_pool_def be_bytes16)
  then show ?thesis
    by (simp add: w)
qed

theorem WritePattern_first_visit_and_back_reference_witness:
  "WritePattern_call ex_tree_pool (ex_writer [128, 0, 0, 0, 4] [(0, 0)]) (ex_visit 1 2) =
     Inr (0, ex_writer [128, 0, 0, 0, 4, 130, 0, 1, 0, 0] [(0, 0), (1, 1)]) \<and>
   WritePattern_call ex_tree_pool (ex_writer [128, 0, 0, 0, 4] [(0, 0)]) (ex_visit 0 1) =
     Inr (1, ex_writer [128, 0, 0, 0, 4, 1, 0] [(0, 0)])"
proof -
  have ne: "''tree'' \<noteq> []" by simp
  have b1: "fBits (ex_tree_pool ! lnPattern (link (ex_visit 1 2))) \<noteq> []"
           "length (fBits (ex_tree_pool ! lnPattern (link (ex_visit 1 2)))) < 2 ^ 32"
           "lnType (link (ex_visit 1 2)) \<le> 2"
    by (simp_all add: ex_visit_def ex_tree_pool_def)
  have b0: "fBits (ex_tree_pool ! lnPattern (link (ex_visit 0 1))) \<noteq> []"
           "length (fBits (ex_tree_pool ! lnPattern (link (ex_visit 0 1)))) < 2 ^ 32"
           "lnType (link (ex_visit 0 1)) \<le> 2"
    by (simp_all add: ex_visit_def ex_tree_pool_def)
  from WritePattern_first_visit_and_back_reference [OF ne ex_write_root b1]
    WritePattern_first_visit_and_back_reference [OF ne ex_write_root b0]
  show ?thesis
    by (simp add: ex_visit_def ex_tree_pool_def ex_writer_def root_descriptor_def be_bytes16
        be_bytes32 Write_index_size_def first_seen_def)
qed

section \<open>The pattern generator\<close>

lemma trial_minbit_Min: "trial_minbit bits = Min (insert 1 (set bits))"
proof -
  have "(\<lambda>bit minbit. if bit < minbit then bit else minbit) = (min :: int \<Rightarrow> int \<Rightarrow> int)"
    by (intro ext) (simp add: min_def)
  then have "trial_minbit bits = fold min (rev bits) 1"
    by (simp add: trial_minbit_def)
  also have "\<dots> = Min (set (1 # rev bits))"
    by (simp only: Min.set_eq_fold)
  finally show ?thesis by simp
qed

lemma trial_maxbit_Max: "trial_maxbit bits = Max (insert 0 (set bits))"
proof -
  have "(\<lambda>bit maxbit. if bit > maxbit then bit else maxbit) = (max :: int \<Rightarrow> int \<Rightarrow> int)"
    by (intro ext) (simp add: max_def)
  then have "trial_maxbit bits = fold max (rev bits) 0"
    by (simp add: trial_maxbit_def)
  also have "\<dots> = Max (set (0 # rev bits))"
    by (simp only: Max.set_eq_fold)
  finally show ?thesis by simp
qed

lemma to_UShort_id: "0 \<le> v \<Longrightarrow> v < 65536 \<Longrightarrow> to_UShort v = nat v"
  by (simp add: to_UShort_def)

lemma to_UShort_le: "int (to_UShort v) \<le> 65535" and to_UShort_ge: "0 \<le> int (to_UShort v)"
  by (simp_all add: to_UShort_def)

lemma canonical_normal:
  fixes r :: "int list"
  assumes ne: "r \<noteq> []" and h0: "0 \<le> hd r" and h1: "hd r \<le> 1"
    and rng: "\<forall>x \<in> set r. 0 \<le> x"
    and acc: "\<not> trial_maxbit r - trial_minbit r > \<bar>GetWidth (map to_UShort r)\<bar>"
  shows "normal
     (if GetWidth (map to_UShort r) < 0
      then map (\<lambda>b. to_UShort (- GetWidth (map to_UShort r) - int b))
             (if trial_minbit r = 0 then map to_UShort r
              else map (\<lambda>b. to_UShort (int b - 1)) (map to_UShort r))
      else (if trial_minbit r = 0 then map to_UShort r
            else map (\<lambda>b. to_UShort (int b - 1)) (map to_UShort r)))"
proof -
  let ?t = "map to_UShort r"
  let ?w = "GetWidth ?t"
  let ?mn = "trial_minbit r"
  let ?mx = "trial_maxbit r"
  have hd_in: "hd r \<in> set r" and last_in: "last r \<in> set r" using ne by simp_all
  have mn_le: "\<forall>x \<in> set r. ?mn \<le> x" and mn1: "?mn \<le> 1"
    by (simp_all add: trial_minbit_Min)
  have "?mn \<in> insert 1 (set r)"
    unfolding trial_minbit_Min by (rule Min_in) simp_all
  then have mn0: "0 \<le> ?mn" using rng by auto
  have mx_ge: "\<forall>x \<in> set r. x \<le> ?mx"
    by (simp add: trial_maxbit_Max)
  have hd_t: "int (hd ?t) = hd r"
    using ne h0 h1 by (simp add: hd_map to_UShort_id)
  have last_t: "last ?t = to_UShort (last r)"
    using ne by (simp add: last_map)
  have w: "?w = int (to_UShort (last r)) - hd r"
    using hd_t last_t by (simp add: GetWidth_def)
  have small: "\<forall>x \<in> set r. x < 65536"
  proof (rule ccontr)
    assume "\<not> (\<forall>x \<in> set r. x < 65536)"
    then obtain x where x: "x \<in> set r" "65536 \<le> x" by force
    then have "65536 \<le> ?mx" using mx_ge by force
    moreover have "?mn \<le> hd r" using mn_le hd_in by blast
    moreover have "\<bar>?w\<bar> \<le> 65535 - hd r"
      using w to_UShort_le [of "last r"] to_UShort_ge [of "last r"] h0 h1 by linarith
    ultimately show False using acc by linarith
  qed
  have t_eq: "?t = map nat r"
    using small rng by (simp add: to_UShort_id)
  have w2: "?w = last r - hd r"
    using w small rng last_in by (simp add: to_UShort_id)
  have bnd: "?mn \<le> hd r" "?mn \<le> last r" "hd r \<le> ?mx" "last r \<le> ?mx"
    using mn_le mx_ge hd_in last_in by blast+
  show ?thesis
  proof (cases "?w < 0")
    case False
    with acc w2 bnd have eq: "last r = ?mx" "hd r = ?mn" by linarith+
    have le_last: "\<forall>x \<in> set r. x \<le> last r" using mx_ge eq by simp
    show ?thesis
    proof (cases "?mn = 0")
      case True
      have "normal (map nat r)"
        using ne eq True le_last small last_in rng
        by (auto simp: normal_def hd_map last_map nat_le_eq_zle)
      with False True show ?thesis by (simp add: t_eq)
    next
      case mn: False
      with mn0 mn1 have one: "?mn = 1" by linarith
      have ge1: "\<forall>x \<in> set r. 1 \<le> x" using mn_le one by simp
      have "to_UShort (int (nat x) - 1) = nat (x - 1)" if "x \<in> set r" for x
      proof -
        from that ge1 small have "1 \<le> x" "x < 65536" by auto
        then show ?thesis by (simp add: to_UShort_id)
      qed
      then have m: "map (\<lambda>b. to_UShort (int b - 1)) (map nat r) = map (\<lambda>x. nat (x - 1)) r"
        by simp
      have "normal (map (\<lambda>x. nat (x - 1)) r)"
        using ne eq one le_last small last_in ge1
        by (auto simp: normal_def hd_map last_map nat_le_eq_zle)
      with False mn show ?thesis unfolding t_eq m by simp
    qed
  next
    case True
    with w2 h0 h1 rng last_in have hl: "hd r = 1" "last r = 0" by force+
    with bnd mn0 have mn: "?mn = 0" by linarith
    from acc w2 hl mn have "?mx \<le> 1" by simp
    then have b: "\<forall>x \<in> set r. x = 0 \<or> x = 1" using mx_ge rng by force
    have "to_UShort (- ?w - int (nat x)) = nat (1 - x)" if "x \<in> set r" for x
    proof -
      from that b have "x = 0 \<or> x = 1" by auto
      then show ?thesis using w2 hl by (auto simp: to_UShort_id)
    qed
    then have m: "map (\<lambda>b. to_UShort (- ?w - int b)) (map nat r) = map (\<lambda>x. nat (1 - x)) r"
      by simp
    have "normal (map (\<lambda>x. nat (1 - x)) r)"
      using ne hl b by (auto simp: normal_def hd_map last_map)
    with True mn show ?thesis unfolding t_eq by (simp add: m [unfolded t_eq] del: map_map)
  qed
qed

lemma trial_bits_props:
  assumes "normal parent"
  shows "trial_bits parent c \<noteq> []" "0 \<le> hd (trial_bits parent c)" "hd (trial_bits parent c) \<le> 1"
    "\<forall>x \<in> set (trial_bits parent c). 0 \<le> x"
proof -
  from assms have ne: "parent \<noteq> []" and h: "hd parent = 0" by (simp_all add: normal_def)
  then have len: "0 < length parent" by simp
  then have upt: "[0 ..< length parent] = 0 # [1 ..< length parent]"
    by (simp add: upt_conv_Cons)
  have p0: "parent ! 0 = 0" using ne h by (simp add: hd_conv_nth)
  show "trial_bits parent c \<noteq> []" using len by (simp add: trial_bits_def)
  show "0 \<le> hd (trial_bits parent c)" "hd (trial_bits parent c) \<le> 1"
    unfolding trial_bits_def upt using p0 by simp_all
  show "\<forall>x \<in> set (trial_bits parent c). 0 \<le> x"
    by (auto simp: trial_bits_def)
qed

lemma search_ok:
  "normal (fParent it) \<Longrightarrow> iter_ok (ChildIter_search it c)"
proof (induction c arbitrary: it)
  case 0
  then show ?case by (simp add: iter_ok_def ChildIter_valid_def)
next
  case (Suc c)
  let ?r = "trial_bits (fParent it) c"
  show ?case
  proof (cases "trial_maxbit ?r - trial_minbit ?r > \<bar>GetWidth (map to_UShort ?r)\<bar>")
    case True
    have "normal (fParent (it \<lparr> itChild := map to_UShort ?r, fCount := int c \<rparr>))"
      using Suc.prems by simp
    from Suc.IH [OF this] True show ?thesis
      by (simp add: Let_def)
  next
    case False
    from canonical_normal [OF trial_bits_props [OF Suc.prems, of c] False] Suc.prems False
    show ?thesis
      by (simp add: Let_def iter_ok_def)
  qed
qed

lemma incr_ok: "iter_ok it \<Longrightarrow> iter_ok (ChildIter_incr it)"
proof -
  assume "iter_ok it"
  then have p: "normal (fParent it)" by (simp add: iter_ok_def)
  show ?thesis
  proof (cases "fCount it > 0")
    case True
    with search_ok [OF p] show ?thesis by (simp add: ChildIter_incr_def)
  next
    case False
    with p show ?thesis by (simp add: ChildIter_incr_def iter_ok_def ChildIter_valid_def)
  qed
qed

lemma ctor_iter_ok: "normal parent \<Longrightarrow> iter_ok (ChildIter_ctor parent)"
  by (simp add: ChildIter_ctor_def ChildIter_incr_def search_ok)

lemma pool_ok_AddChild: "pool_ok b \<Longrightarrow> pool_ok (AddChild b parent child t)"
proof -
  assume ok: "pool_ok b"
  have "normal (fBits p)" if "p \<in> set (pool (AddChild b parent child t))" for p
  proof -
    from that have "p \<in> insert ((pool b ! parent) \<lparr> fChild := \<lparr> lnPattern = child, lnType = t \<rparr> # fChild (pool b ! parent) \<rparr>) (set (pool b))"
      using set_update_subset_insert by (fastforce simp: AddChild_def)
    moreover have "normal (fBits (pool b ! parent))" if "parent < length (pool b)"
      using ok that by (simp add: pool_ok_def)
    moreover have "p \<in> set (pool b)" if "\<not> parent < length (pool b)"
      using that \<open>p \<in> set (pool (AddChild b parent child t))\<close>
      by (simp add: AddChild_def list_update_beyond)
    ultimately show ?thesis using ok by (cases "parent < length (pool b)") (auto simp: pool_ok_def)
  qed
  with ok show ?thesis by (simp add: pool_ok_def AddChild_def)
qed

lemma pool_ok_UsedAtDepth: "pool_ok b \<Longrightarrow> pool_ok (UsedAtDepth b pnode d)"
  by (auto simp: pool_ok_def UsedAtDepth_def split: if_splits)

lemma set_concat_update:
  "set (concat (tbl[k := x # tbl ! k])) \<subseteq> insert x (set (concat tbl))"
proof (cases "k < length tbl")
  case True
  have "set (tbl[k := x # tbl ! k]) \<subseteq> insert (x # tbl ! k) (set tbl)"
    by (rule set_update_subset_insert)
  moreover have "tbl ! k \<in> set tbl" using True by simp
  ultimately show ?thesis by fastforce
next
  case False
  then show ?thesis by (auto simp: list_update_beyond)
qed

lemma pool_ok_AddHash:
  assumes "pool_ok b" "pat < length (pool b)"
  shows "pool_ok (AddHash Hash s b pat)"
proof -
  let ?tbl = "(if length (fHashTable b) = 0 then replicate (2 ^ (fNlevels s - 1)) [] else fHashTable b)"
  have c: "set (concat ?tbl) \<subseteq> set (concat (fHashTable b))" by auto
  have "n \<in> insert \<lparr> fPattern = pat, fMinDepth = kNoDepth \<rparr> (set (concat (fHashTable b)))"
    if "n \<in> set (concat (fHashTable (AddHash Hash s b pat)))" for n
    using that c set_concat_update [of ?tbl]
    by (fastforce simp: AddHash_def Let_def)
  with assms show ?thesis
    by (fastforce simp: pool_ok_def AddHash_def Let_def)
qed

lemma Find_chain_in: "Find_chain pl pat chain = Some node \<Longrightarrow> node \<in> set chain"
  by (induction chain) (auto split: if_splits)

lemma Find_in_table:
  "Find Hash b pat = Inr (Some node) \<Longrightarrow> node \<in> set (concat (fHashTable b))"
proof -
  assume f: "Find Hash b pat = Inr (Some node)"
  then have len: "length (fHashTable b) \<noteq> 0"
    and c: "Find_chain (pool b) pat (fHashTable b ! (Hash pat mod length (fHashTable b))) = Some node"
    by (auto simp: Find_def Let_def split: if_splits)
  from len have "fHashTable b ! (Hash pat mod length (fHashTable b)) \<in> set (fHashTable b)"
    by simp
  with Find_chain_in [OF c] show ?thesis by auto
qed

lemma pool_ok_new:
  assumes "pool_ok b" "normal child"
  shows "pool_ok (AddHash Hash s (b \<lparr> pool := pool b @ [\<lparr> fBits = child, fChild = [] \<rparr>] \<rparr>) (length (pool b)))"
proof -
  have "pool_ok (b \<lparr> pool := pool b @ [\<lparr> fBits = child, fChild = [] \<rparr>] \<rparr>)"
    using assms by (auto simp: pool_ok_def less_Suc_eq)
  then show ?thesis by (rule pool_ok_AddHash) simp
qed

lemma make_children_ok:
  "pool_ok b \<Longrightarrow> iter_ok it \<Longrightarrow> make_children Hash s b parent depth it = Inr b1 \<Longrightarrow> pool_ok b1"
proof (induction Hash s b parent depth it arbitrary: b1 rule: make_children.induct)
  case (1 Hash s b parent depth it)
  note IH = "1.IH" and run = "1.prems"(3) and okb = "1.prems"(1)
  have nxt: "iter_ok (ChildIter_incr it)" using "1.prems"(2) by (rule incr_ok)
  show ?case
  proof (cases "ChildIter_valid it")
    case False
    with run okb show ?thesis by (subst (asm) make_children.simps) simp
  next
    case v: True
    then have vv: "\<not> \<not> ChildIter_valid it" by simp
    from v "1.prems"(2) have child: "normal (itChild it)" by (simp add: iter_ok_def)
    from run v obtain r where f: "Find Hash b (itChild it) = Inr r"
      by (subst (asm) make_children.simps) (auto simp: Let_def split: sum.splits)
    show ?thesis
    proof (cases r)
      case (Some node)
      show ?thesis
      proof (cases "fMinDepth node \<le> of_nat depth \<or> TestSlope s (fBits (pool b ! fPattern node)) depth")
        case True
        with run v f Some have rc:
          "make_children Hash s (AddChild b parent (fPattern node) (fType it)) parent depth (ChildIter_incr it) = Inr b1"
          by (subst (asm) make_children.simps) (simp add: Let_def)
        show ?thesis
          by (rule IH(4) [OF vv refl f Some refl True pool_ok_AddChild [OF okb] nxt rc])
      next
        case False
        with run v f Some have rc:
          "make_children Hash s b parent depth (ChildIter_incr it) = Inr b1"
          by (subst (asm) make_children.simps) (simp add: Let_def)
        show ?thesis
          by (rule IH(5) [OF vv refl f Some refl False okb nxt rc])
      qed
    next
      case None
      show ?thesis
      proof (cases "TestSlope s (itChild it) depth")
        case False
        with run v f None have rc:
          "make_children Hash s b parent depth (ChildIter_incr it) = Inr b1"
          by (subst (asm) make_children.simps) (simp add: Let_def)
        show ?thesis
          by (rule IH(1) [OF vv refl f None False okb nxt rc])
      next
        case ts: True
        then have tss: "\<not> \<not> TestSlope s (itChild it) depth" by simp
        from run v f None ts obtain ok where lc: "LineCheck s (itChild it) = Inr ok"
          by (subst (asm) make_children.simps) (auto simp: Let_def split: sum.splits)
        show ?thesis
        proof (cases ok)
          case True
          let ?b2 = "AddHash Hash s (b \<lparr> pool := pool b @ [\<lparr> fBits = itChild it, fChild = [] \<rparr>] \<rparr>) (length (pool b))"
          from run v f None ts lc True have rc:
            "make_children Hash s (AddChild ?b2 parent (length (pool b)) (fType it)) parent depth (ChildIter_incr it) = Inr b1"
            by (subst (asm) make_children.simps) (simp add: Let_def)
          show ?thesis
            by (rule IH(2) [OF vv refl f None tss lc True refl refl refl
                  pool_ok_AddChild [OF pool_ok_new [OF okb child]] nxt rc])
        next
          case False
          from run v f None ts lc False have rc:
            "make_children Hash s b parent depth (ChildIter_incr it) = Inr b1"
            by (subst (asm) make_children.simps) (simp add: Let_def)
          show ?thesis
            by (rule IH(3) [OF vv refl f None tss lc False okb nxt rc])
        qed
      qed
    qed
  qed
qed

lemma for_each_inv:
  assumes "P b" and "for_each f b xs = Inr b1"
    and "\<And>c x c1. x \<in> set xs \<Longrightarrow> P c \<Longrightarrow> f c x = Inr c1 \<Longrightarrow> P c1"
  shows "P b1"
  using assms
proof (induction xs arbitrary: b)
  case Nil
  then show ?case by simp
next
  case (Cons x xs)
  from Cons.prems(2) obtain c where c: "f b x = Inr c" and r: "for_each f c xs = Inr b1"
    by (auto split: sum.splits)
  have pc: "P c" using Cons.prems(3) [OF _ Cons.prems(1) c] by simp
  have step: "P d1" if "y \<in> set xs" "P d" "f d y = Inr d1" for d y d1
    using Cons.prems(3) [of y d d1] that by simp
  show ?case by (rule Cons.IH [OF pc r step])
qed

lemma MakeChildNodes_ok:
  "pool_ok b \<Longrightarrow> pnode < length (pool b) \<Longrightarrow>
     MakeChildNodes Hash s b pnode depth = Inr b1 \<Longrightarrow> pool_ok b1"
proof (induction Hash s b pnode depth arbitrary: b1 rule: MakeChildNodes.induct)
  case (1 Hash s b pnode depth)
  let ?b1 = "if 0 < depth then UsedAtDepth b pnode (depth - 1) else b"
  have ok1: "pool_ok ?b1" using "1.prems"(1) by (simp add: pool_ok_UsedAtDepth)
  have len1: "pnode < length (pool ?b1)" using "1.prems"(2) by (simp add: UsedAtDepth_def)
  show ?case
  proof (cases "fNlevels s \<le> depth")
    case True
    with "1.prems"(3) ok1 show ?thesis
      by (subst (asm) MakeChildNodes.simps) (simp add: Let_def)
  next
    case False
    let ?gen = "if fChild (pool ?b1 ! pnode) = []
                then make_children Hash s ?b1 pnode depth (ChildIter_ctor (fBits (pool ?b1 ! pnode)))
                else Inr ?b1"
    let ?body = "\<lambda>c lnk.
                 let pat = lnPattern lnk in
                 case Find Hash c (fBits (pool c ! pat)) of
                   Inl e \<Rightarrow> Inl e
                 | Inr None \<Rightarrow> Inl AssertionFailed
                 | Inr (Some node) \<Rightarrow>
                     if fChild (pool c ! pat) = [] \<or> fMinDepth node > of_nat depth
                     then MakeChildNodes Hash s c (fPattern node) (depth + 1)
                     else Inr c"
    from "1.prems"(3) False obtain b2 where gen: "?gen = Inr b2"
      and loop: "for_each ?body b2 (fChild (pool b2 ! pnode)) = Inr b1"
      by (subst (asm) MakeChildNodes.simps) (auto simp: Let_def split: sum.splits)
    have "normal (fBits (pool ?b1 ! pnode))"
      using ok1 len1 by (simp add: pool_ok_def)
    then have "iter_ok (ChildIter_ctor (fBits (pool ?b1 ! pnode)))" by (rule ctor_iter_ok)
    note it = this
    have ok2: "pool_ok b2"
    proof (cases "fChild (pool ?b1 ! pnode) = []")
      case True
      with gen have "make_children Hash s ?b1 pnode depth (ChildIter_ctor (fBits (pool ?b1 ! pnode))) = Inr b2"
        by simp
      from make_children_ok [OF ok1 it this] show ?thesis .
    next
      case False
      with gen ok1 show ?thesis by simp
    qed
    show ?thesis
    proof (rule for_each_inv [where P = pool_ok, OF ok2 loop])
      fix c x c1
      assume x: "x \<in> set (fChild (pool b2 ! pnode))" and okc: "pool_ok c" and step: "?body c x = Inr c1"
      from step obtain node where f: "Find Hash c (fBits (pool c ! lnPattern x)) = Inr (Some node)"
        by (auto simp: Let_def split: sum.splits option.splits)
      show "pool_ok c1"
      proof (cases "fChild (pool c ! lnPattern x) = [] \<or> of_nat depth < fMinDepth node")
        case True
        with step f have rc: "MakeChildNodes Hash s c (fPattern node) (depth + 1) = Inr c1"
          by (auto simp: Let_def)
        have "fPattern node < length (pool c)"
          using Find_in_table [OF f] okc by (auto simp: pool_ok_def)
        from "1.IH" [OF refl False refl gen x refl f refl True okc this rc]
        show ?thesis .
      next
        case False
        with step f okc show ?thesis by (auto simp: Let_def)
      qed
    qed
  qed
qed


lemma Generate_pool_ok:
  assumes "Generate Hash g0 parameters = Inr (tree, g)"
    and "n \<in> set (concat (fHashTable (gBuild g)))"
  shows "fPattern n < length (pool (gBuild g)) \<and> normal (fBits (pool (gBuild g) ! fPattern n))"
proof -
  obtain rc par where np: "Normalize parameters = (rc, par)" by (cases "Normalize parameters")
  show ?thesis
  proof (cases "rc \<noteq> 0")
    case True
    with assms np show ?thesis by (auto simp: Generate_def DeleteTree_def)
  next
    case False
    let ?s = "\<lparr> fNlevels = maxdepth par + 1, fNplanes = length (zpos par),
                 fMaxSlope = maxslope par, fZ = zpos par \<rparr>"
    let ?b0 = "\<lparr> fHashTable = [], pool = [Pattern_new (length (zpos par))] \<rparr>"
    from assms(1) np False have ne: "length (zpos par) \<noteq> 0"
      by (auto simp: Generate_def Let_def split: if_splits)
    from assms(1) np False ne obtain b where
      run: "MakeChildNodes Hash ?s (AddHash Hash ?s ?b0 0) 0 1 = Inr b" and g: "gBuild g = b"
      by (auto simp: Generate_def Let_def split: sum.splits)
    have "normal (replicate (length (zpos par)) 0)"
      using ne by (cases "length (zpos par)") (auto simp: normal_def)
    then have "pool_ok ?b0" by (simp add: pool_ok_def Pattern_new_def)
    then have ok: "pool_ok (AddHash Hash ?s ?b0 0)" by (rule pool_ok_AddHash) simp
    have "0 < length (pool (AddHash Hash ?s ?b0 0))" by (simp add: AddHash_def Let_def)
    from MakeChildNodes_ok [OF ok this run] have "pool_ok b" .
    with assms(2) g show ?thesis by (auto simp: pool_ok_def)
  qed
qed

lemma normal_props:
  assumes "normal bits"
  shows "bits \<noteq> []" "bits ! 0 = 0" "Min (set bits) = 0" "Max (set bits) = last bits"
    "GetWidth bits = int (Max (set bits)) - int (Min (set bits))"
proof -
  from assms have ne: "bits \<noteq> []" and h: "hd bits = 0" and le: "\<forall>x \<in> set bits. x \<le> last bits"
    by (simp_all add: normal_def)
  show "bits \<noteq> []" by (rule ne)
  show "bits ! 0 = 0" using ne h by (simp add: hd_conv_nth)
  have "hd bits \<in> set bits" using ne by simp
  with h have "0 \<in> set bits" by simp
  then show mn: "Min (set bits) = 0" by (intro Min_eqI) simp_all
  have "last bits \<in> set bits" using ne by simp
  with le show mx: "Max (set bits) = last bits" by (intro Max_eqI) simp_all
  show "GetWidth bits = int (Max (set bits)) - int (Min (set bits))"
    using h by (simp add: GetWidth_def mn mx)
qed

lemma iterate_incr_ok: "iter_ok it \<Longrightarrow> iter_ok ((ChildIter_incr ^^ k) it)"
  by (induction k) (simp_all add: incr_ok)

lemma ex_Generate: "Generate last ex_generator ex_params = Inr (None, ex_tree)"
  by code_simp

text \<open>
  Claim C5. Every pattern that the hash table holds after \<open>Generate\<close> (the root and every
  child that \<open>ChildIter\<close> produced and that was stored) has bits, its first bit is 0, and
  its width \<open>max(bits) - min(bits)\<close> is not negative and is what \<open>GetWidth\<close> gives. And
  whenever the parent is a normalised pattern, every child that \<open>ChildIter\<close> yields, after
  its shift and mirror steps, has these properties too.
\<close>

theorem stored_patterns_first_bit_zero:
  "(Generate Hash g0 parameters = Inr (tree, g) \<longrightarrow> n \<in> set (concat (fHashTable (gBuild g))) \<longrightarrow>
      fBits (pool (gBuild g) ! fPattern n) \<noteq> [] \<and>
      fBits (pool (gBuild g) ! fPattern n) ! 0 = 0 \<and>
      0 \<le> int (Max (set (fBits (pool (gBuild g) ! fPattern n)))) -
            int (Min (set (fBits (pool (gBuild g) ! fPattern n)))) \<and>
      GetWidth (fBits (pool (gBuild g) ! fPattern n)) =
        int (Max (set (fBits (pool (gBuild g) ! fPattern n)))) -
        int (Min (set (fBits (pool (gBuild g) ! fPattern n))))) \<and>
   (normal parent \<longrightarrow> ChildIter_valid ((ChildIter_incr ^^ k) (ChildIter_ctor parent)) \<longrightarrow>
      itChild ((ChildIter_incr ^^ k) (ChildIter_ctor parent)) \<noteq> [] \<and>
      itChild ((ChildIter_incr ^^ k) (ChildIter_ctor parent)) ! 0 = 0 \<and>
      0 \<le> int (Max (set (itChild ((ChildIter_incr ^^ k) (ChildIter_ctor parent))))) -
            int (Min (set (itChild ((ChildIter_incr ^^ k) (ChildIter_ctor parent))))))"
proof (intro conjI impI)
  assume "Generate Hash g0 parameters = Inr (tree, g)" "n \<in> set (concat (fHashTable (gBuild g)))"
  then have nb: "normal (fBits (pool (gBuild g) ! fPattern n))"
    by (simp add: Generate_pool_ok)
  from normal_props [OF nb]
  show "fBits (pool (gBuild g) ! fPattern n) \<noteq> []"
    "fBits (pool (gBuild g) ! fPattern n) ! 0 = 0"
    "0 \<le> int (Max (set (fBits (pool (gBuild g) ! fPattern n)))) -
          int (Min (set (fBits (pool (gBuild g) ! fPattern n))))"
    "GetWidth (fBits (pool (gBuild g) ! fPattern n)) =
        int (Max (set (fBits (pool (gBuild g) ! fPattern n)))) -
        int (Min (set (fBits (pool (gBuild g) ! fPattern n))))"
    by simp_all
next
  assume "normal parent" and v: "ChildIter_valid ((ChildIter_incr ^^ k) (ChildIter_ctor parent))"
  then have "iter_ok ((ChildIter_incr ^^ k) (ChildIter_ctor parent))"
    by (intro iterate_incr_ok ctor_iter_ok)
  with v have nb: "normal (itChild ((ChildIter_incr ^^ k) (ChildIter_ctor parent)))"
    by (simp add: iter_ok_def)
  from normal_props [OF nb]
  show "itChild ((ChildIter_incr ^^ k) (ChildIter_ctor parent)) \<noteq> []"
    "itChild ((ChildIter_incr ^^ k) (ChildIter_ctor parent)) ! 0 = 0"
    "0 \<le> int (Max (set (itChild ((ChildIter_incr ^^ k) (ChildIter_ctor parent))))) -
          int (Min (set (itChild ((ChildIter_incr ^^ k) (ChildIter_ctor parent)))))"
    by simp_all
qed

lemma ex_ChildIter:
  "ChildIter_incr (ChildIter_ctor [0, 0]) =
     \<lparr> fParent = [0, 0], itChild = [0, 1], fCount = 2, fType = 0 \<rparr>"
  by code_simp

theorem stored_patterns_first_bit_zero_witness:
  "fBits (pool (gBuild ex_tree) ! 1) = [0, 1] \<and> [0, 1 :: nat] ! 0 = 0 \<and>
   GetWidth [0, 1] = int (Max (set [0, 1])) - int (Min (set [0, 1])) \<and>
   itChild (ChildIter_incr (ChildIter_ctor [0, 0])) = [0, 1]"
proof -
  have n: "\<lparr> fPattern = 1, fMinDepth = 1 \<rparr> \<in> set (concat (fHashTable (gBuild ex_tree)))"
    by (simp add: ex_tree_def)
  have p: "normal [0, 0]" by (simp add: normal_def)
  have v: "ChildIter_valid ((ChildIter_incr ^^ 1) (ChildIter_ctor [0, 0]))"
    by (simp add: ex_ChildIter ChildIter_valid_def)
  from stored_patterns_first_bit_zero
    [of last ex_generator ex_params None ex_tree "\<lparr> fPattern = 1, fMinDepth = 1 \<rparr>" "[0, 0]" 1]
    ex_Generate n p v
  show ?thesis
    by (simp add: ex_tree_def ex_tree_pool_def ex_ChildIter)
qed

lemma Generate_tree_zero: "Generate Hash g0 parameters = Inr (tree, g) \<Longrightarrow> tree = None"
  by (auto simp: Generate_def Let_def split: prod.splits if_splits sum.splits)

text \<open>
  Claim C1, at the valid parameters \<open>maxDepth = 1, width = 1, zpos = [0, 1], maxSlope = 0\<close>:
  normalisation accepts them and the tree is built, but \<open>Generate\<close> returns the zero
  pointer, as it does for all parameters.
\<close>

theorem Generate_valid_parameters_zero_pointer:
  "fst (Normalize ex_params) = 0 \<and> Generate last ex_generator ex_params = Inr (None, ex_tree)"
  using ex_Generate by (simp add: Normalize_def ex_params_def)

text \<open>
  Claim C4, at the parameters \<open>maxDepth = 4, width = 1, zpos = [0, 1], maxSlope = 1/2\<close>:
  after \<open>Generate\<close> the patterns \<open>[0, 6]\<close> and \<open>[0, 7]\<close> are stored with \<open>fMinDepth = 3\<close>, and
  \<open>TestSlope\<close> at depth 3 is false for both.
\<close>

theorem slope_test_fails_at_minimum_depth:
  "fst (Normalize ex_params4) = 0 \<and>
   (case Generate last ex_generator ex_params4 of
      Inl e \<Rightarrow> []
    | Inr (tree, g) \<Rightarrow> slope_failures g) = [([0, 6], 3), ([0, 7], 3)] \<and>
   \<not> TestSlope \<lparr> fNlevels = 5, fNplanes = 2, fMaxSlope = 1 / 2, fZ = [0, 1] \<rparr> [0, 6] 3"
  by code_simp

lemma ex_Write:
  "Write ex_tree True ''tree'' =
     Some (Inr (0, ex_writer [128, 0, 0, 0, 4, 0, 0, 130, 0, 1, 0, 0, 0, 1, 1, 0] [(0, 0), (1, 1)]))"
  by code_simp

text \<open>
  Claim C7, as the specification states it: for \<open>maxDepth = 1, width = 1, zpos = [0, 1],
  maxSlope = 0\<close> the tree has one pattern, the root without children, and the file has 4
  bytes. The generated tree has two patterns, its root has children, and the file has
  16 bytes.
\<close>

theorem trivial_tree_counterexample:
  "Generate last ex_generator ex_params = Inr (None, ex_tree) \<and>
   length (pool (gBuild ex_tree)) \<noteq> 1 \<and> nPatterns (fStats ex_tree) \<noteq> 1 \<and>
   fChild (pool (gBuild ex_tree) ! 0) \<noteq> [] \<and>
   Write ex_tree True ''tree'' =
     Some (Inr (0, ex_writer [128, 0, 0, 0, 4, 0, 0, 130, 0, 1, 0, 0, 0, 1, 1, 0] [(0, 0), (1, 1)])) \<and>
   length [128, 0, 0, 0, 4, 0, 0, 130, 0, 1, 0, 0, 0, 1, 1, 0 :: 8 word] \<noteq> 4"
  using ex_Generate ex_Write by (simp add: ex_tree_def ex_tree_pool_def)

text \<open>
  Claim C7, amended. With \<open>nLevels = maxDepth + 1 = 2\<close> the children of the root at depth 1
  are generated: the tree has the two patterns \<open>[0, 0]\<close> and \<open>[0, 1]\<close>; the root has four
  links, to itself with the types 0 and 1 and to \<open>[0, 1]\<close> with the types 0 and 2, and
  \<open>[0, 1]\<close> has none. With a hash function that leaves the root alone in bucket 0 (here
  the last bit of the pattern), \<open>Write\<close> produces 16 bytes: 5 for the root (header, two
  bytes for bit 1, two for the child count 4), 2 for the back-reference to the root, 5 for
  \<open>[0, 1]\<close>, and 2 for each of the back-references to \<open>[0, 1]\<close> and to the root.
\<close>

theorem trivial_tree_two_patterns:
  "Generate last ex_generator ex_params = Inr (None, ex_tree) \<and>
   nPatterns (fStats ex_tree) = 2 \<and>
   map fBits (pool (gBuild ex_tree)) = [[0, 0], [0, 1]] \<and>
   map (\<lambda>l. (lnPattern l, lnType l)) (fChild (pool (gBuild ex_tree) ! 0)) =
     [(0, 0), (1, 2), (1, 0), (0, 1)] \<and>
   fChild (pool (gBuild ex_tree) ! 1) = [] \<and>
   Write ex_tree True ''tree'' =
     Some (Inr (0, ex_writer ([128, 0, 0, 0, 4] @ [0, 0] @ [130, 0, 1, 0, 0] @ [0, 1] @ [1, 0])
                     [(0, 0), (1, 1)])) \<and>
   length ([128, 0, 0, 0, 4] @ [0, 0] @ [130, 0, 1, 0, 0] @ [0, 1] @ [1, 0 :: 8 word]) = 16"
  using ex_Generate ex_Write by (simp add: ex_tree_def ex_tree_pool_def)

section \<open>HitPairIter\<close>

lemma iter_Next_take:
  "set (take (snd (iter_Next c i)) c) = set (take i c) \<union> set_option (fst (iter_Next c i))"
  by (auto simp: iter_Next_def take_Suc_conv_app_nth)

lemma iter_Next_None: "fst (iter_Next c i) = None \<longleftrightarrow> length c \<le> i"
  by (auto simp: iter_Next_def)

lemma iter_Next_snd: "i \<le> snd (iter_Next c i)" "snd (iter_Next c i) \<le> Suc i"
  "length c \<le> i \<Longrightarrow> snd (iter_Next c i) = i" "i < length c \<Longrightarrow> snd (iter_Next c i) = Suc i"
  by (auto simp: iter_Next_def)

lemma iter_Next_rem:
  "(length c - snd (iter_Next c i)) + (if fst (iter_Next c i) = None then 0 else 1) = length c - i"
  by (auto simp: iter_Next_def)

lemma reseek_spec:
  assumes "cur \<le> ib \<or> (hitB = nextB \<and> cur = snd (iter_Next B ib))"
    and "nextB = fst (iter_Next B ib)"
    and "hitB = None \<longrightarrow> length B \<le> cur"
  shows "\<exists>hb cb. reseek hs B md a nextB hitB cur = Inr (hb, cb) \<and> cur \<le> cb \<and>
           cb \<le> snd (iter_Next B ib) \<and> (hb = None \<longrightarrow> length B \<le> cb) \<and>
           set (take cb B) \<subseteq> set (take ib B) \<union> set_option hb"
  using assms
proof (induction hs B md a nextB hitB cur rule: reseek.induct)
  case (1 hs B md a nextB hitB cur)
  show ?case
  proof (cases "hitB = nextB")
    case True
    have "set (take cur B) \<subseteq> set (take ib B) \<union> set_option hitB"
    proof (cases "cur \<le> ib")
      case True
      then show ?thesis using set_take_subset_set_take [of cur ib B] by auto
    next
      case False
      with "1.prems"(1) have "cur = snd (iter_Next B ib)" by simp
      then show ?thesis using iter_Next_take [of B ib] True "1.prems"(2) by simp
    qed
    moreover have "cur \<le> snd (iter_Next B ib)"
      using "1.prems"(1) iter_Next_snd(1) [of ib B] by auto
    ultimately show ?thesis
      using True "1.prems"(3) by (subst reseek.simps) simp
  next
    case ne: False
    with "1.prems"(1) have le: "cur \<le> ib" by simp
    have sub: "set (take cur B) \<subseteq> set (take ib B)"
      using le by (rule set_take_subset_set_take)
    show ?thesis
    proof (cases hitB)
      case None
      with "1.prems"(3) le have "length B \<le> ib" by simp
      then have "nextB = None" using "1.prems"(2) by (simp add: iter_Next_None)
      with None ne show ?thesis by simp
    next
      case (Some b)
      show ?thesis
      proof (cases "Compare (hs b) (hs a) md < 0")
        case False
        with ne Some le sub iter_Next_snd(1) [of ib B] show ?thesis
          by (subst reseek.simps) (auto intro: order_trans)
      next
        case True
        let ?h = "fst (iter_Next B cur)" and ?c = "snd (iter_Next B cur)"
        have p1: "?c \<le> ib \<or> (?h = nextB \<and> ?c = snd (iter_Next B ib))"
        proof (cases "cur = ib")
          case True
          then show ?thesis using "1.prems"(2) by simp
        next
          case False
          with le have "Suc cur \<le> ib" by simp
          with iter_Next_snd(2) [of B cur] show ?thesis by simp
        qed
        have p3: "?h = None \<longrightarrow> length B \<le> ?c"
          by (auto simp: iter_Next_def)
        from "1.IH" [OF ne Some True p1 "1.prems"(2) p3] obtain hb cb where
          r: "reseek hs B md a nextB ?h ?c = Inr (hb, cb)" "?c \<le> cb"
            "cb \<le> snd (iter_Next B ib)" "hb = None \<longrightarrow> length B \<le> cb"
            "set (take cb B) \<subseteq> set (take ib B) \<union> set_option hb"
          by blast
        have "cur \<le> cb" using r(2) iter_Next_snd(1) [of cur B] by simp
        with r ne Some True show ?thesis
          by (subst reseek.simps) simp
      qed
    qed
  qed
qed


lemma iter_Next_drop:
  "(case fst (iter_Next c i) of None \<Rightarrow> [] | Some h \<Rightarrow> [h]) @ drop (snd (iter_Next c i)) c = drop i c"
  by (simp add: iter_Next_def Cons_nth_drop_Suc)

lemma remdups_adj_Cons_cong:
  assumes "remdups_adj xs = remdups_adj ys"
  shows "remdups_adj (x # xs) = remdups_adj (x # ys)"
  using assms by (simp add: remdups_adj_Cons)

text \<open>
  One call of \<open>Next\<close> on a started iterator: it returns normally, the state it leaves is
  as described above with the hits of the new current pair counted as returned, the
  first components still to come are those of before (the current one aside), and
  the measure of what is left decreases unless the iteration is over.
\<close>

lemma Next_step:
  assumes inv: "hp_inv it EA EB"
  shows "\<exists>it1. Next hs it = Inr it1 \<and> fCollA it1 = fCollA it \<and> fCollB it1 = fCollB it \<and>
           hp_inv it1 (EA \<union> set_option (fst (fCurrent it1))) (EB \<union> set_option (snd (fCurrent it1))) \<and>
           set_option (fst (fCurrent it1)) \<subseteq> set (fCollA it) \<union> set_option (fst (fNext it)) \<and>
           remdups_adj ((case fst (fCurrent it1) of None \<Rightarrow> [] | Some h \<Rightarrow> [h]) @ pendingA it1)
             = remdups_adj (pendingA it) \<and>
           (fNext it \<noteq> (None, None) \<longrightarrow> hp_measure it1 < hp_measure it) \<and>
           ((fCurrent it1 = (None, None)) = (fNext it = (None, None))) \<and>
           (fNext it = (None, None) \<longrightarrow> fNext it1 = (None, None))"
proof -
  let ?A = "fCollA it" and ?B = "fCollB it" and ?ia = "fIterA it" and ?ib = "fIterB it"
  let ?nxA = "iter_Next ?A ?ia" and ?nxB = "iter_Next ?B ?ib"
  obtain na nb where nx: "fNext it = (na, nb)" by (cases "fNext it")
  from inv nx have st: "fStarted it"
    and a1: "set (take ?ia ?A) \<subseteq> EA \<union> set_option na"
    and a2: "na = None \<longrightarrow> length ?A \<le> ?ia"
    and b1: "set (take ?ib ?B) \<subseteq> EB \<union> set_option nb"
    and b2: "nb = None \<longrightarrow> set ?B \<subseteq> EB"
    and sc: "fScanning it \<longrightarrow> fSaveIter it \<le> ?ib \<and> fSaveHit it \<noteq> None"
    by (simp_all add: hp_inv_def)
  have tA: "set (take (snd ?nxA) ?A) = set (take ?ia ?A) \<union> set_option (fst ?nxA)"
    by (rule iter_Next_take)
  have tB: "set (take (snd ?nxB) ?B) = set (take ?ib ?B) \<union> set_option (fst ?nxB)"
    by (rule iter_Next_take)
  have nA: "fst ?nxA = None \<longrightarrow> length ?A \<le> snd ?nxA"
    by (auto simp: iter_Next_def)
  have nB: "fst ?nxB = None \<longrightarrow> set ?B \<subseteq> set (take ?ib ?B)"
    by (auto simp: iter_Next_def)
  have rA: "(length ?A - snd ?nxA) + (if fst ?nxA = None then 0 else 1) = length ?A - ?ia"
    by (rule iter_Next_rem)
  have rB: "(length ?B - snd ?nxB) + (if fst ?nxB = None then 0 else 1) = length ?B - ?ib"
    by (rule iter_Next_rem)
  have inA: "set_option (fst ?nxA) \<subseteq> set ?A" by (auto simp: iter_Next_def)
  have dA: "(case fst ?nxA of None \<Rightarrow> [] | Some h \<Rightarrow> [h]) @ drop (snd ?nxA) ?A = drop ?ia ?A"
    by (rule iter_Next_drop)
  show ?thesis
  proof (cases na)
    case naN: None
    show ?thesis
    proof (cases nb)
      case None
      with naN nx st inv show ?thesis
        by (auto simp: Next_def Let_def hp_inv_def pendingA_def)
    next
      case (Some b)
      let ?it1 = "it \<lparr> fCurrent := (None, Some b), fIterB := snd ?nxB, fNext := (None, fst ?nxB) \<rparr>"
      have run: "Next hs it = Inr ?it1"
        using naN Some nx st by (simp add: Next_def Let_def)
      have "hp_inv ?it1 (EA \<union> set_option (fst (fCurrent ?it1))) (EB \<union> set_option (snd (fCurrent ?it1)))"
        using st a1 a2 b1 sc tB nB naN Some iter_Next_snd(1) [of ?ib ?B]
        by (auto simp: hp_inv_def)
      moreover have "remdups_adj ((case fst (fCurrent ?it1) of None \<Rightarrow> [] | Some h \<Rightarrow> [h]) @ pendingA ?it1)
             = remdups_adj (pendingA it)"
          using dA naN Some nx by (simp add: pendingA_def)
        moreover have "hp_measure ?it1 < hp_measure it"
        using rB naN Some nx by (simp add: hp_measure_def)
      ultimately show ?thesis using run naN Some nx by simp
    qed
  next
    case naS: (Some a)
    show ?thesis
    proof (cases nb)
      case None
      let ?it1 = "it \<lparr> fCurrent := (Some a, None), fIterA := snd ?nxA, fNext := (fst ?nxA, None) \<rparr>"
      have run: "Next hs it = Inr ?it1"
        using naS None nx st by (simp add: Next_def Let_def)
      have "hp_inv ?it1 (EA \<union> set_option (fst (fCurrent ?it1))) (EB \<union> set_option (snd (fCurrent ?it1)))"
        using st a1 b1 b2 sc tA nA naS None
        by (auto simp: hp_inv_def)
      moreover have "remdups_adj ((case fst (fCurrent ?it1) of None \<Rightarrow> [] | Some h \<Rightarrow> [h]) @ pendingA ?it1)
             = remdups_adj (pendingA it)"
          using dA naS None nx by (simp add: pendingA_def)
        moreover have "hp_measure ?it1 < hp_measure it"
        using rA naS None nx by (simp add: hp_measure_def)
      ultimately show ?thesis using run naS None nx by simp
    next
      case nbS: (Some b)
      let ?cmp = "Compare (hs a) (hs b) (fMaxDist it)"
      have ibB: "?ib \<le> snd ?nxB" by (rule iter_Next_snd(1))
      consider (lt) "?cmp = - 1" | (gt) "?cmp \<noteq> - 1" "?cmp = 1"
        | (fin) "?cmp \<noteq> - 1" "?cmp \<noteq> 1"
            "case fst ?nxB of None \<Rightarrow> True | Some n \<Rightarrow> Compare (hs a) (hs n) (fMaxDist it) < 0"
        | (scan) "?cmp \<noteq> - 1" "?cmp \<noteq> 1"
            "\<not> (case fst ?nxB of None \<Rightarrow> True | Some n \<Rightarrow> Compare (hs a) (hs n) (fMaxDist it) < 0)"
        by blast
      then show ?thesis
      proof cases
        case lt
        let ?it1 = "it \<lparr> fCurrent := (Some a, None), fIterA := snd ?nxA, fNext := (fst ?nxA, Some b) \<rparr>"
        have run: "Next hs it = Inr ?it1"
          using naS nbS nx st lt by (simp add: Next_def Let_def)
        have "hp_inv ?it1 (EA \<union> set_option (fst (fCurrent ?it1))) (EB \<union> set_option (snd (fCurrent ?it1)))"
          using st a1 b1 b2 sc tA nA naS nbS
          by (auto simp: hp_inv_def)
        moreover have "remdups_adj ((case fst (fCurrent ?it1) of None \<Rightarrow> [] | Some h \<Rightarrow> [h]) @ pendingA ?it1)
             = remdups_adj (pendingA it)"
          using dA naS nbS nx by (simp add: pendingA_def)
        moreover have "hp_measure ?it1 < hp_measure it"
          using rA naS nbS nx by (simp add: hp_measure_def)
        ultimately show ?thesis using run naS nbS nx by simp
      next
        case gt
        let ?it1 = "it \<lparr> fCurrent := (None, Some b), fIterB := snd ?nxB, fNext := (Some a, fst ?nxB) \<rparr>"
        have run: "Next hs it = Inr ?it1"
          using naS nbS nx st gt by (simp add: Next_def Let_def)
        have "hp_inv ?it1 (EA \<union> set_option (fst (fCurrent ?it1))) (EB \<union> set_option (snd (fCurrent ?it1)))"
          using st a1 a2 b1 sc tB nB naS nbS ibB
          by (auto simp: hp_inv_def)
        moreover have "remdups_adj ((case fst (fCurrent ?it1) of None \<Rightarrow> [] | Some h \<Rightarrow> [h]) @ pendingA ?it1)
             = remdups_adj (pendingA it)"
          using dA naS nbS nx by (simp add: pendingA_def)
        moreover have "hp_measure ?it1 < hp_measure it"
          using rB naS nbS nx by (simp add: hp_measure_def)
        ultimately show ?thesis using run naS nbS nx by simp
      next
        case scan
        then obtain n where n: "fst ?nxB = Some n" by (cases "fst ?nxB") auto
        let ?it1 = "it \<lparr> fCurrent := (Some a, Some b), fIterB := snd ?nxB,
                          fScanning := True,
                          fSaveIter := (if fScanning it then fSaveIter it else snd ?nxB),
                          fSaveHit := (if fScanning it then fSaveHit it else Some b),
                          fNext := (Some a, Some n) \<rparr>"
        have run: "Next hs it = Inr ?it1"
          using naS nbS nx st scan n by (simp add: Next_def Let_def)
        have "hp_inv ?it1 (EA \<union> set_option (fst (fCurrent ?it1))) (EB \<union> set_option (snd (fCurrent ?it1)))"
          using st a1 a2 b1 sc tB nB naS nbS ibB n
          by (auto simp: hp_inv_def)
        moreover have "remdups_adj ((case fst (fCurrent ?it1) of None \<Rightarrow> [] | Some h \<Rightarrow> [h]) @ pendingA ?it1)
             = remdups_adj (pendingA it)"
          using dA naS nbS nx by (simp add: pendingA_def)
        moreover have "hp_measure ?it1 < hp_measure it"
          using rB naS nbS nx n by (simp add: hp_measure_def)
        ultimately show ?thesis using run naS nbS nx by simp
      next
        case fin
        show ?thesis
        proof (cases "fScanning it")
          case False
          let ?it1 = "it \<lparr> fCurrent := (Some a, Some b), fIterB := snd ?nxB,
                            fIterA := snd ?nxA, fNext := (fst ?nxA, fst ?nxB) \<rparr>"
          have run: "Next hs it = Inr ?it1"
            using naS nbS nx st fin False by (cases "fst ?nxB") (simp_all add: Next_def Let_def)
          have "hp_inv ?it1 (EA \<union> set_option (fst (fCurrent ?it1))) (EB \<union> set_option (snd (fCurrent ?it1)))"
            using st a1 a2 b1 sc tA nA tB nB naS nbS ibB False
            by (auto simp: hp_inv_def)
          moreover have "remdups_adj ((case fst (fCurrent ?it1) of None \<Rightarrow> [] | Some h \<Rightarrow> [h]) @ pendingA ?it1)
             = remdups_adj (pendingA it)"
          using dA naS nbS nx by (simp add: pendingA_def)
        moreover have "hp_measure ?it1 < hp_measure it"
            using rA naS nbS nx by (auto simp: hp_measure_def)
          ultimately show ?thesis using run naS nbS nx by simp
        next
          case True
          with sc obtain sh where sh: "fSaveHit it = Some sh" and sv: "fSaveIter it \<le> ?ib"
            by auto
          show ?thesis
          proof (cases "fst ?nxA")
            case None
            let ?it1 = "it \<lparr> fCurrent := (Some a, Some b), fIterB := fSaveIter it,
                              fScanning := False,
                              fIterA := snd ?nxA, fNext := (None, fst ?nxB) \<rparr>"
            have run: "Next hs it = Inr ?it1"
              using naS nbS nx st fin True None by (cases "fst ?nxB") (simp_all add: Next_def Let_def)
            have sub: "set (take (fSaveIter it) ?B) \<subseteq> set (take ?ib ?B)"
              using sv by (rule set_take_subset_set_take)
            have "hp_inv ?it1 (EA \<union> set_option (fst (fCurrent ?it1))) (EB \<union> set_option (snd (fCurrent ?it1)))"
              using st a1 a2 b1 tA nA nB naS nbS None sub
              by (auto simp: hp_inv_def)
            moreover have "remdups_adj ((case fst (fCurrent ?it1) of None \<Rightarrow> [] | Some h \<Rightarrow> [h]) @ pendingA ?it1)
             = remdups_adj (pendingA it)"
          using dA naS nbS nx None by (simp add: pendingA_def)
        moreover have "hp_measure ?it1 < hp_measure it"
              using rA naS nbS nx None by (auto simp: hp_measure_def)
            ultimately show ?thesis using run naS nbS nx None by simp
          next
            case (Some a')
            have "\<exists>hb cb. reseek hs ?B (fMaxDist it) a' (fst ?nxB) (fSaveHit it) (fSaveIter it)
                     = Inr (hb, cb) \<and> fSaveIter it \<le> cb \<and> cb \<le> snd ?nxB \<and>
                     (hb = None \<longrightarrow> length ?B \<le> cb) \<and>
                     set (take cb ?B) \<subseteq> set (take ?ib ?B) \<union> set_option hb"
              by (rule reseek_spec) (use sv sh in auto)
            then obtain hb cb where
              rs: "reseek hs ?B (fMaxDist it) a' (fst ?nxB) (fSaveHit it) (fSaveIter it) = Inr (hb, cb)"
              and c2: "hb = None \<longrightarrow> length ?B \<le> cb"
              and c3: "set (take cb ?B) \<subseteq> set (take ?ib ?B) \<union> set_option hb"
              by blast
            let ?it1 = "it \<lparr> fCurrent := (Some a, Some b), fIterB := cb,
                              fScanning := False,
                              fIterA := snd ?nxA, fNext := (Some a', hb) \<rparr>"
            have run: "Next hs it = Inr ?it1"
              using naS nbS nx st fin True Some rs by (cases "fst ?nxB") (simp_all add: Next_def Let_def)
            have c4: "hb = None \<longrightarrow> set ?B \<subseteq> set (take ?ib ?B)"
              using c2 c3 by auto
            have "hp_inv ?it1 (EA \<union> set_option (fst (fCurrent ?it1))) (EB \<union> set_option (snd (fCurrent ?it1)))"
              using st a1 a2 b1 tA nA naS nbS Some c3 c4
              by (auto simp: hp_inv_def)
            moreover have "remdups_adj ((case fst (fCurrent ?it1) of None \<Rightarrow> [] | Some h \<Rightarrow> [h]) @ pendingA ?it1)
             = remdups_adj (pendingA it)"
          using dA naS nbS nx Some by (simp add: pendingA_def)
        moreover have "hp_measure ?it1 < hp_measure it"
              using rA naS nbS nx Some by (auto simp: hp_measure_def)
            ultimately show ?thesis using run naS nbS nx Some by simp
          qed
        qed
      qed
    qed
  qed
qed

lemma emitted_terminal:
  assumes "hp_inv it EA EB" and "fCurrent it = (None, None)" and "fNext it = (None, None)"
    and "0 < k"
  shows "emitted k hs it = Some (Inr []) \<and> set (fCollA it) \<subseteq> EA \<and> set (fCollB it) \<subseteq> EB"
proof -
  from assms(4) obtain j where k: "k = Suc j" by (cases k) auto
  from assms(1,3) show ?thesis
    unfolding k by (auto simp: hp_inv_def assms(2))
qed

lemma emitted_complete:
  assumes "hp_inv it (EA \<union> set_option (fst (fCurrent it))) (EB \<union> set_option (snd (fCurrent it)))"
    and "fCurrent it = (None, None) \<longrightarrow> fNext it = (None, None)"
    and "hp_measure it + 2 \<le> k"
  shows "\<exists>ps. emitted k hs it = Some (Inr ps) \<and>
           Some ` set (fCollA it) \<subseteq> Some ` EA \<union> fst ` set ps \<and>
           Some ` set (fCollB it) \<subseteq> Some ` EB \<union> snd ` set ps"
  using assms
proof (induction k arbitrary: it EA EB)
  case 0
  then show ?case by simp
next
  case (Suc k)
  let ?EA = "EA \<union> set_option (fst (fCurrent it))"
  let ?EB = "EB \<union> set_option (snd (fCurrent it))"
  show ?case
  proof (cases "fCurrent it = (None, None)")
    case True
    with Suc.prems(2) have nx: "fNext it = (None, None)" by simp
    from emitted_terminal [OF Suc.prems(1) True nx, of "Suc k" hs] True
    show ?thesis by auto
  next
    case False
    from Next_step [OF Suc.prems(1), of hs] obtain it1 where
      run: "Next hs it = Inr it1" and cA: "fCollA it1 = fCollA it" and cB: "fCollB it1 = fCollB it"
      and inv1: "hp_inv it1 (?EA \<union> set_option (fst (fCurrent it1))) (?EB \<union> set_option (snd (fCurrent it1)))"
      and dec: "fNext it \<noteq> (None, None) \<longrightarrow> hp_measure it1 < hp_measure it"
      and cur1: "(fCurrent it1 = (None, None)) = (fNext it = (None, None))"
      and nx1: "fNext it = (None, None) \<longrightarrow> fNext it1 = (None, None)"
      by blast
    have curA: "Some ` ?EA \<subseteq> Some ` EA \<union> {fst (fCurrent it)}"
      by (cases "fst (fCurrent it)") auto
    have curB: "Some ` ?EB \<subseteq> Some ` EB \<union> {snd (fCurrent it)}"
      by (cases "snd (fCurrent it)") auto
    show ?thesis
    proof (cases "fNext it = (None, None)")
      case True
      with cur1 nx1 have c1: "fCurrent it1 = (None, None)" and n1: "fNext it1 = (None, None)"
        by simp_all
      from Suc.prems(3) have k: "0 < k" by simp
      from inv1 c1 have inv1': "hp_inv it1 ?EA ?EB" by simp
      from emitted_terminal [OF inv1' c1 n1 k, of hs]
      have e: "emitted k hs it1 = Some (Inr [])"
        and sA: "set (fCollA it) \<subseteq> ?EA" and sB: "set (fCollB it) \<subseteq> ?EB"
        by (simp_all add: cA cB)
      have "emitted (Suc k) hs it = Some (Inr [fCurrent it])"
        using False run e by simp
      moreover have "Some ` set (fCollA it) \<subseteq> Some ` EA \<union> fst ` set [fCurrent it]"
        using sA curA by auto
      moreover have "Some ` set (fCollB it) \<subseteq> Some ` EB \<union> snd ` set [fCurrent it]"
        using sB curB by auto
      ultimately show ?thesis by blast
    next
      case nxF: False
      with cur1 have l1: "fCurrent it1 = (None, None) \<longrightarrow> fNext it1 = (None, None)" by simp
      from nxF dec Suc.prems(3) have m1: "hp_measure it1 + 2 \<le> k" by simp
      from Suc.IH [OF inv1 l1 m1] obtain ps where
        e: "emitted k hs it1 = Some (Inr ps)"
        and sA: "Some ` set (fCollA it) \<subseteq> Some ` ?EA \<union> fst ` set ps"
        and sB: "Some ` set (fCollB it) \<subseteq> Some ` ?EB \<union> snd ` set ps"
        by (auto simp: cA cB)
      have "emitted (Suc k) hs it = Some (Inr (fCurrent it # ps))"
        using False run e by simp
      moreover have "Some ` set (fCollA it) \<subseteq> Some ` EA \<union> fst ` set (fCurrent it # ps)"
        using sA curA by auto
      moreover have "Some ` set (fCollB it) \<subseteq> Some ` EB \<union> snd ` set (fCurrent it # ps)"
        using sB curB by auto
      ultimately show ?thesis by blast
    qed
  qed
qed

lemma emitted_firsts:
  assumes "hp_inv it EA EB"
    and "fCurrent it = (None, None) \<longrightarrow> fNext it = (None, None)"
    and "emitted k hs it = Some (Inr ps)"
  shows "remdups_adj (List.map_filter fst ps) =
           remdups_adj ((case fst (fCurrent it) of None \<Rightarrow> [] | Some h \<Rightarrow> [h]) @ pendingA it)"
  using assms
proof (induction k arbitrary: it EA EB ps)
  case 0
  then show ?case by simp
next
  case (Suc k)
  show ?case
  proof (cases "fCurrent it = (None, None)")
    case True
    with Suc.prems(2) have nx: "fNext it = (None, None)" by simp
    from Suc.prems(1) nx have "length (fCollA it) \<le> fIterA it" by (simp add: hp_inv_def)
    with nx have "pendingA it = []" by (simp add: pendingA_def)
    moreover from Suc.prems(3) True have "ps = []" by simp
    ultimately show ?thesis using True by (simp add: List.map_filter_simps)
  next
    case False
    from Next_step [OF Suc.prems(1), of hs] obtain it1 where
      run: "Next hs it = Inr it1"
      and inv1: "hp_inv it1 (EA \<union> set_option (fst (fCurrent it1))) (EB \<union> set_option (snd (fCurrent it1)))"
      and pend: "remdups_adj ((case fst (fCurrent it1) of None \<Rightarrow> [] | Some h \<Rightarrow> [h]) @ pendingA it1)
                   = remdups_adj (pendingA it)"
      and cur1: "(fCurrent it1 = (None, None)) = (fNext it = (None, None))"
      and nx1: "fNext it = (None, None) \<longrightarrow> fNext it1 = (None, None)"
      by blast
    from cur1 nx1 have l1: "fCurrent it1 = (None, None) \<longrightarrow> fNext it1 = (None, None)" by blast
    from Suc.prems(3) False run obtain ps1 where
      e: "emitted k hs it1 = Some (Inr ps1)" and ps: "ps = fCurrent it # ps1"
      by (auto split: option.splits sum.splits)
    from Suc.IH [OF inv1 l1 e] pend
    have ih: "remdups_adj (List.map_filter fst ps1) = remdups_adj (pendingA it)" by simp
    show ?thesis
    proof (cases "fst (fCurrent it)")
      case None
      with ih show ?thesis by (simp add: ps List.map_filter_simps)
    next
      case (Some a)
      then have mf: "List.map_filter fst ps = a # List.map_filter fst ps1"
        by (simp add: ps List.map_filter_simps)
      have "remdups_adj (a # List.map_filter fst ps1) = remdups_adj (a # pendingA it)"
        by (rule remdups_adj_Cons_cong [OF ih])
      then show ?thesis unfolding mf Some by (simp only: option.case append_Cons append_Nil)
    qed
  qed
qed

lemma Next_unstarted:
  assumes "\<not> fStarted it0"
  shows "Next hs it0 = Next hs (it0 \<lparr> fIterA := snd (iter_Next (fCollA it0) (fIterA it0)),
                            fIterB := snd (iter_Next (fCollB it0) (fIterB it0)),
                            fNext := (fst (iter_Next (fCollA it0) (fIterA it0)),
                                      fst (iter_Next (fCollB it0) (fIterB it0))),
                            fStarted := True \<rparr>)"
  using assms by (simp add: Next_def)

text \<open>
  Claim C8, as the specification states it: every hit of A and of B is in exactly one
  returned pair, and the pairs follow the order of the collections. With the hits 0, 1 in
  A and 2, 3 in B, each matching both hits of the other plane, the pairs are (0, 2),
  (0, 3), (1, 2): the hits 0 and 2 are in two pairs each, and hit 2 of B comes again
  after hit 3. This is the scan of B for a fixed hit of A, after which the iterator of B
  is set back to where the scan began.
\<close>

theorem HitPairIter_exactly_once_counterexample:
  "all_pairs 16 ex_wirehits [0, 1] [2, 3] 1
     = Some (Inr [(Some 0, Some 2), (Some 0, Some 3), (Some 1, Some 2)])"
  by code_simp

text \<open>
  Claim C8, amended. For all collections A and B, all hit positions and every \<open>maxdist\<close>,
  the iteration ends without an error after at most \<open>(|A| + 2) * (|B| + 2)\<close> pairs; every
  hit of A is the first component and every hit of B the second component of at least
  one returned pair; and the first components, null pointers left out and a hit that
  is returned in several consecutive pairs counted once, are the hits of A in the order
  of A.
\<close>

theorem HitPairIter_returns_every_hit:
  "\<exists>ps. all_pairs ((length A + 2) * (length B + 2)) hs A B md = Some (Inr ps) \<and>
        Some ` set A \<subseteq> fst ` set ps \<and> Some ` set B \<subseteq> snd ` set ps \<and>
        remdups_adj (List.map_filter fst ps) = remdups_adj A"
proof -
  let ?it0 = "\<lparr> fCollA = A, fCollB = B, fIterA = 0, fIterB = 0, fSaveIter = 0,
               fSaveHit = None, fMaxDist = md, fStarted = False, fScanning = False,
               fCurrent = (None, None), fNext = (None, None) \<rparr>"
  let ?its = "?it0 \<lparr> fIterA := snd (iter_Next A 0), fIterB := snd (iter_Next B 0),
                     fNext := (fst (iter_Next A 0), fst (iter_Next B 0)), fStarted := True \<rparr>"
  let ?k = "(length A + 2) * (length B + 2)"
  have ctor: "HitPairIter_ctor hs A B md = Next hs ?its"
    unfolding HitPairIter_ctor_def by (subst Next_unstarted) simp_all
  have inv: "hp_inv ?its {} {}"
    using iter_Next_take [of A 0] iter_Next_take [of B 0]
    by (auto simp: hp_inv_def iter_Next_def split: if_splits)
  have ms: "hp_measure ?its = length A * (length B + 2) + length B"
    using iter_Next_rem [of A 0] iter_Next_rem [of B 0] by (simp add: hp_measure_def)
  from Next_step [OF inv, of hs] obtain it1 where
    run: "Next hs ?its = Inr it1" and cA: "fCollA it1 = A" and cB: "fCollB it1 = B"
    and inv1: "hp_inv it1 ({} \<union> set_option (fst (fCurrent it1))) ({} \<union> set_option (snd (fCurrent it1)))"
    and pend: "remdups_adj ((case fst (fCurrent it1) of None \<Rightarrow> [] | Some h \<Rightarrow> [h]) @ pendingA it1)
                 = remdups_adj (pendingA ?its)"
    and dec: "fNext ?its \<noteq> (None, None) \<longrightarrow> hp_measure it1 < hp_measure ?its"
    and cur1: "(fCurrent it1 = (None, None)) = (fNext ?its = (None, None))"
    and nx1: "fNext ?its = (None, None) \<longrightarrow> fNext it1 = (None, None)"
    by auto
  have ap: "all_pairs ?k hs A B md = emitted ?k hs it1"
    by (simp only: all_pairs_def ctor run sum.case)
  have l1: "fCurrent it1 = (None, None) \<longrightarrow> fNext it1 = (None, None)"
    using cur1 nx1 by blast
  have "pendingA ?its = A"
    using iter_Next_drop [of A 0] by (simp add: pendingA_def)
  with pend have pA: "remdups_adj ((case fst (fCurrent it1) of None \<Rightarrow> [] | Some h \<Rightarrow> [h]) @ pendingA it1)
                 = remdups_adj A" by simp
  have ord: "remdups_adj (List.map_filter fst ps) = remdups_adj A"
    if "emitted ?k hs it1 = Some (Inr ps)" for ps
    using emitted_firsts [OF inv1 l1 that] pA by simp
  show ?thesis
  proof (cases "fNext ?its = (None, None)")
    case True
    with cur1 nx1 have c1: "fCurrent it1 = (None, None)" and n1: "fNext it1 = (None, None)"
      by blast+
    from inv1 c1 have inv1': "hp_inv it1 {} {}" by simp
    have "0 < ?k" by simp
    from emitted_terminal [OF inv1' c1 n1 this, of hs]
    have e: "emitted ?k hs it1 = Some (Inr [])" and "set A \<subseteq> {}" and "set B \<subseteq> {}"
      unfolding cA cB by blast+
    then have "Some ` set A \<subseteq> fst ` set []" and "Some ` set B \<subseteq> snd ` set []"
      by simp_all
    with e ord [OF e] show ?thesis unfolding ap by blast
  next
    case False
    with dec have "hp_measure it1 < hp_measure ?its" by blast
    then have m1: "hp_measure it1 + 2 \<le> ?k" unfolding ms by simp
    from emitted_complete [OF inv1 l1 m1, of hs] obtain ps where
      e: "emitted ?k hs it1 = Some (Inr ps)"
      and "Some ` set A \<subseteq> fst ` set ps" and "Some ` set B \<subseteq> snd ` set ps"
      unfolding cA cB image_empty Un_empty_left by blast
    with ord [OF e] show ?thesis unfolding ap by blast
  qed
qed

theorem HitPairIter_returns_every_hit_witness:
  "\<exists>ps. all_pairs ((length [0::nat] + 2) * (length [2, 3::nat] + 2)) ex_wirehits [0] [2, 3] 1
           = Some (Inr ps) \<and>
        Some ` set [0] \<subseteq> fst ` set ps \<and> Some ` set [2, 3] \<subseteq> snd ` set ps \<and>
        remdups_adj (List.map_filter fst ps) = remdups_adj [0]"
  using HitPairIter_returns_every_hit [of "[0]" "[2, 3]" ex_wirehits 1] by simp

end
